theory Spec2Isabelle
  imports Main "HOL-Library.Sublist"
begin

section \<open>Text primitives\<close>

text \<open>
  \<^verbatim>\<open>QString\<close> values are modelled as \<^typ>\<open>string\<close>. The character classes are those of
  \<^verbatim>\<open>QRegularExpression\<close> without the Unicode-properties option: \<^verbatim>\<open>\s\<close>, \<^verbatim>\<open>\d\<close> and
  \<^verbatim>\<open>\w\<close> match ASCII characters only. Case folding (\<^verbatim>\<open>toLower\<close>,
  \<^verbatim>\<open>Qt::CaseInsensitive\<close>) is modelled on the ASCII letters.
\<close>

definition is_space :: "char \<Rightarrow> bool" where
  "is_space c = (c \<in> {CHR '' '', CHR 0x09, CHR 0x0A, CHR 0x0B, CHR 0x0C, CHR 0x0D})"

definition is_digit :: "char \<Rightarrow> bool" where
  "is_digit c = (c \<in> set ''0123456789'')"

definition is_word :: "char \<Rightarrow> bool" where
  "is_word c = (c \<in> set ''abcdefghijklmnopqrstuvwxyzABCDEFGHIJKLMNOPQRSTUVWXYZ0123456789_'')"

definition toLowerChar :: "char \<Rightarrow> char" where
  "toLowerChar c =
     (case map_of (zip ''ABCDEFGHIJKLMNOPQRSTUVWXYZ'' ''abcdefghijklmnopqrstuvwxyz'') c of
        Some l \<Rightarrow> l
      | None \<Rightarrow> c)"

definition toLower :: "string \<Rightarrow> string" where
  "toLower s = map toLowerChar s"

text \<open>One literal character of a pattern: the rest of the input when it is there.\<close>

fun expect :: "char \<Rightarrow> string \<Rightarrow> string option" where
  "expect c [] = None"
| "expect c (x # xs) = (if x = c then Some xs else None)"

text \<open>\<^verbatim>\<open>QString::mid(position, n)\<close>: \<open>n\<close> characters from \<open>position\<close>, all of the rest when
  \<open>n\<close> is negative or reaches beyond the end.\<close>

definition mid :: "string \<Rightarrow> nat \<Rightarrow> int \<Rightarrow> string" where
  "mid s pos n = (if n < 0 then drop pos s else take (nat n) (drop pos s))"

definition digit_val :: "char \<Rightarrow> nat" where
  "digit_val c = of_char c - 48"

definition decimal :: "string \<Rightarrow> nat" where
  "decimal ds = foldl (\<lambda>n c. 10 * n + digit_val c) 0 ds"

text \<open>\<^verbatim>\<open>QString::toInt()\<close> on a string of decimal digits: the value when it fits a 32-bit
  \<^verbatim>\<open>int\<close>, and 0 (conversion failure) when it does not.\<close>

definition toInt :: "string \<Rightarrow> int" where
  "toInt ds = (let n = int (decimal ds) in if n \<le> 2147483647 then n else 0)"


section \<open>Version partitioning: \<^verbatim>\<open>versionSpecificPart\<close>\<close>

text \<open>
  The pattern \<^verbatim>\<open>\/\*\s*V(\d+)\+\s*\*\/\<close> tried at the head of the input; the result is the
  text of capture group 1. Each starred class is followed by a character outside the class, so
  the greedy match is the only one.
\<close>

definition match_marker :: "string \<Rightarrow> string option" where
  "match_marker s =
     Option.bind (expect CHR ''/'' s) (\<lambda>r0.
     Option.bind (expect CHR ''*'' r0) (\<lambda>r1.
     Option.bind (expect CHR ''V'' (dropWhile is_space r1)) (\<lambda>r2.
     if takeWhile is_digit r2 = [] then None else
     Option.bind (expect CHR ''+'' (dropWhile is_digit r2)) (\<lambda>r3.
     Option.bind (expect CHR ''*'' (dropWhile is_space r3)) (\<lambda>r4.
     Option.bind (expect CHR ''/'' r4) (\<lambda>r5.
     Some (takeWhile is_digit r2)))))))"

text \<open>
  \<^verbatim>\<open>re.globalMatch(script)\<close> for the lookahead \<^verbatim>\<open>(?=...)\<close>: the pattern consumes nothing, so
  there is one match at every offset where a marker begins, and \<^verbatim>\<open>capturedStart()\<close> and
  \<^verbatim>\<open>capturedEnd()\<close> of a match are both that offset. A match is the pair of its offset and
  the text captured by group 1.
\<close>

fun globalMatch :: "nat \<Rightarrow> string \<Rightarrow> (nat \<times> string) list" where
  "globalMatch p [] = []"
| "globalMatch p (c # cs) =
     (case match_marker (c # cs) of
        Some d \<Rightarrow> (p, d) # globalMatch (Suc p) cs
      | None \<Rightarrow> globalMatch (Suc p) cs)"

text \<open>\<^verbatim>\<open>parts[key] = value\<close> on a \<^verbatim>\<open>QMap<int, QString>\<close>, kept as a list sorted by key.\<close>

fun qmap_insert :: "int \<Rightarrow> string \<Rightarrow> (int \<times> string) list \<Rightarrow> (int \<times> string) list" where
  "qmap_insert k v [] = [(k, v)]"
| "qmap_insert k v ((k', v') # m) =
     (if k < k' then (k, v) # (k', v') # m
      else if k = k' then (k, v) # m
      else (k', v') # qmap_insert k v m)"

text \<open>The \<^verbatim>\<open>while (i.hasNext())\<close> loop: \<open>capturedEnd\<close> of the match to \<open>capturedStart\<close> of the
  next one, or to the end of the text.\<close>

fun collect_parts :: "string \<Rightarrow> (nat \<times> string) list \<Rightarrow> (int \<times> string) list \<Rightarrow> (int \<times> string) list" where
  "collect_parts script [] parts = parts"
| "collect_parts script [(p, d)] parts = qmap_insert (toInt d) (drop p script) parts"
| "collect_parts script ((p, d) # (p', d') # ms) parts =
     collect_parts script ((p', d') # ms)
       (qmap_insert (toInt d) (mid script p (int p' - int p)) parts)"

text \<open>The \<^verbatim>\<open>do ... while\<close> search, on the entries from the greatest key down.\<close>

fun search_highest :: "(int \<times> string) list \<Rightarrow> int \<Rightarrow> string" where
  "search_highest [] version = ''''"
| "search_highest ((k, v) # rest) version =
     (if k \<le> version then v else search_highest rest version)"

definition versionSpecificPart :: "string \<Rightarrow> int \<Rightarrow> string" where
  "versionSpecificPart script version =
     (let ms = globalMatch 0 script in
      if ms = [] then script
      else search_highest (rev (collect_parts script ms [])) version)"

text \<open>The key and text of every segment, in the order of the markers in the script.\<close>

fun segments :: "string \<Rightarrow> (nat \<times> string) list \<Rightarrow> (int \<times> string) list" where
  "segments script [] = []"
| "segments script [(p, d)] = [(toInt d, drop p script)]"
| "segments script ((p, d) # (p', d') # ms) =
     (toInt d, mid script p (int p' - int p)) # segments script ((p', d') # ms)"


section \<open>Macro expansion\<close>

text \<open>The pattern \<^verbatim>\<open>\$(\w+\.\w+)\$\<close> tried at the head of the input; the result is the
  text of capture group 1 (the macro name).\<close>

definition match_macro :: "string \<Rightarrow> string option" where
  "match_macro s =
     Option.bind (expect CHR ''$'' s) (\<lambda>r0.
     if takeWhile is_word r0 = [] then None else
     Option.bind (expect CHR ''.'' (dropWhile is_word r0)) (\<lambda>r1.
     if takeWhile is_word r1 = [] then None else
     Option.bind (expect CHR ''$'' (dropWhile is_word r1)) (\<lambda>r2.
     Some (takeWhile is_word r0 @ ''.'' @ takeWhile is_word r1))))"

text \<open>\<^verbatim>\<open>expr.globalMatch(query)\<close>: the matches from left to right, the search going on after
  the end of each match; only \<^verbatim>\<open>captured(1)\<close> of a match is used. A match is two characters
  longer than its name.\<close>

function globalMatch_macro :: "string \<Rightarrow> string list" where
  "globalMatch_macro [] = []"
| "globalMatch_macro (c # cs) =
     (case match_macro (c # cs) of
        Some m \<Rightarrow> m # globalMatch_macro (drop (Suc (length m)) cs)
      | None \<Rightarrow> globalMatch_macro cs)"
  by pat_completeness auto
termination
  by (relation "measure length") auto

text \<open>The first loop: \<^verbatim>\<open>if (!macros.contains(match.captured(1))) macros << match.captured(1)\<close>.\<close>

fun collect_macros :: "string list \<Rightarrow> string list \<Rightarrow> string list" where
  "collect_macros [] macros = macros"
| "collect_macros (m # ms) macros =
     collect_macros ms (if m \<in> set macros then macros else macros @ [m])"

text \<open>\<^verbatim>\<open>QString::replace(before, after)\<close> for a non-empty \<open>before\<close>: every occurrence found
  scanning from the left, the scan going on after the replaced text. (The code only passes
  \<^verbatim>\<open>"$" + macro + "$"\<close>; an empty \<open>before\<close> leaves the text as it is here.)\<close>

function replace :: "string \<Rightarrow> string \<Rightarrow> string \<Rightarrow> string" where
  "replace [] before after = []"
| "replace (c # cs) before after =
     (if before \<noteq> [] \<and> prefix before (c # cs)
      then after @ replace (drop (length before) (c # cs)) before after
      else c # replace cs before after)"
  by pat_completeness auto
termination
  by (relation "measure (\<lambda>(s, before, after). length s)") (auto simp: neq_Nil_conv)

text \<open>The second loop. The resolver \<open>envCallback\<close> gives the string form of the value
  (\<^verbatim>\<open>envCallback(macro).toString()\<close>); the names it is called with are recorded in order.\<close>

fun replace_macros :: "(string \<Rightarrow> string) \<Rightarrow> string list \<Rightarrow> string \<times> string list \<Rightarrow> string \<times> string list" where
  "replace_macros envCallback [] (query, calls) = (query, calls)"
| "replace_macros envCallback (macro # rest) (query, calls) =
     (let v = envCallback macro
      in replace_macros envCallback rest
           (replace query (''$'' @ macro @ ''$'') (if v = [] then ''NULL'' else v),
            calls @ [macro]))"

definition expand_macros :: "(string \<Rightarrow> string) \<Rightarrow> string \<Rightarrow> string \<times> string list" where
  "expand_macros envCallback query =
     replace_macros envCallback (collect_macros (globalMatch_macro query) []) (query, [])"


section \<open>Program state and collaborators\<close>

datatype Context = Root | Tree | Content | Preview

datatype ScriptType = SQL | QS

record Script =
  body :: string
  stype :: ScriptType

text \<open>A \<^verbatim>\<open>DataTable\<close> object: its address and what \<^verbatim>\<open>getColumn(i).name()\<close> and
  \<^verbatim>\<open>value(r, c).toString()\<close> read.\<close>

record DataTable =
  addr :: nat
  colNames :: "string list"
  cells :: "string list list"

definition rowCount :: "DataTable \<Rightarrow> nat" where
  "rowCount t = length (cells t)"

definition columnCount :: "DataTable \<Rightarrow> nat" where
  "columnCount t = length (colNames t)"

text \<open>What the code reads from a connection: its identity, whether
  \<^verbatim>\<open>qobject_cast<OdbcConnection*>\<close> succeeds, and \<open>exec_result q\<close>, the content of
  \<^verbatim>\<open>_resultsets\<close> after \<^verbatim>\<open>execute(q)\<close>.\<close>

record DbConnection =
  dbmsName :: string
  dbmsVersion :: string
  dbmsComparableVersion :: int
  isOdbc :: bool
  exec_result :: "string \<Rightarrow> DataTable list"

record FileInfo =
  baseName :: string
  suffix :: string
  filePath :: string
  content :: "string option"

text \<open>The file system as the code asks it: \<^verbatim>\<open>QDir::exists\<close>, \<^verbatim>\<open>entryList\<close> of the
  sub-directories, \<^verbatim>\<open>QFile::exists\<close>, \<^verbatim>\<open>entryInfoList\<close> of the files. The \<open>content\<close> of a
  file is \<open>None\<close> when it cannot be opened for reading.\<close>

record FileSystem =
  applicationDirPath :: string
  dir_exists :: "string \<Rightarrow> bool"
  entryList :: "string \<Rightarrow> string list"
  file_exists :: "string \<Rightarrow> bool"
  entryInfoList :: "string \<Rightarrow> FileInfo list"

datatype fs_op = DirExists string | EntryList string | FileExists string
  | EntryInfoList string | OpenFile string

datatype con_op = ConOpen | ConDbmsName | ConDbmsVersion | ConComparableVersion
  | ConExecute string

datatype error =
    DbConnectionUnavailable
  | DirectoryDoesNotExist string
  | UnableToGetDbmsName
  | DirectoryNotAvailable string
  | CantOpen string
  | ErrorAtLine int string

text \<open>The two file-scope caches \<^verbatim>\<open>_dbms_paths\<close> and \<^verbatim>\<open>_scripts\<close>, and what the calls do to
  the outside: the file-system requests, the calls on the connection, the resolver calls, the
  texts evaluated by the script engine and the tables deleted.\<close>

record World =
  g_dbms_paths :: "(string \<times> string) list"
  g_scripts :: "(string \<times> (string \<times> Script) list) list"
  fs_log :: "fs_op list"
  con_log :: "con_op list"
  cb_log :: "string list"
  js_log :: "string list"
  deleted :: "nat list"

text \<open>\<^verbatim>\<open>QHash::insert\<close>: the value of an existing key is replaced.\<close>

definition qhash_insert :: "'k \<Rightarrow> 'v \<Rightarrow> ('k \<times> 'v) list \<Rightarrow> ('k \<times> 'v) list" where
  "qhash_insert k v m = (k, v) # filter (\<lambda>kv. fst kv \<noteq> k) m"

text \<open>\<^verbatim>\<open>_scripts[path]\<close>: a missing entry reads as an empty bunch.\<close>

definition get_bunch :: "string \<Rightarrow> World \<Rightarrow> (string \<times> Script) list" where
  "get_bunch path w = (case map_of (g_scripts w) path of Some b \<Rightarrow> b | None \<Rightarrow> [])"

definition set_bunch :: "string \<Rightarrow> (string \<times> Script) list \<Rightarrow> World \<Rightarrow> World" where
  "set_bunch path b w = w\<lparr>g_scripts := qhash_insert path b (g_scripts w)\<rparr>"


section \<open>Path resolution: \<^verbatim>\<open>dbmsScriptPath\<close>\<close>

definition contextFolder :: "Context \<Rightarrow> string" where
  "contextFolder context =
     (case context of Tree \<Rightarrow> ''tree/'' | Content \<Rightarrow> ''content/'' | Preview \<Rightarrow> ''preview/''
      | Root \<Rightarrow> [])"

text \<open>\<^verbatim>\<open>s.contains(d, Qt::CaseInsensitive)\<close>.\<close>

fun contains :: "string \<Rightarrow> string \<Rightarrow> bool" where
  "contains [] d = (d = [])"
| "contains (c # cs) d = (prefix d (c # cs) \<or> contains cs d)"

definition contains_ci :: "string \<Rightarrow> string \<Rightarrow> bool" where
  "contains_ci s d = contains (toLower s) (toLower d)"

text \<open>The loop over \<open>subdirs\<close> with its \<^verbatim>\<open>break\<close>; the result is \<open>endPath\<close>.\<close>

fun find_folder :: "string \<Rightarrow> string list \<Rightarrow> string" where
  "find_folder name [] = []"
| "find_folder name (d # ds) =
     (if contains_ci name d then d @ ''/'' else find_folder name ds)"

text \<open>The calls on the connection are logged in the order in which the source writes them.
  C++ does not fix the order in which the two operands of
  \<^verbatim>\<open>con->dbmsName() + con->dbmsVersion()\<close> are evaluated; the log lists them in the order of
  the text, and the statements below depend only on which entries \<open>con_log\<close> holds, never on
  their order.\<close>

definition dbmsScriptPath ::
  "FileSystem \<Rightarrow> DbConnection option \<Rightarrow> Context \<Rightarrow> World \<Rightarrow> (error + string) \<times> World" where
  "dbmsScriptPath fs con context w =
     (case con of
        None \<Rightarrow> (Inl DbConnectionUnavailable, w)
      | Some c \<Rightarrow>
         (let w1 = w\<lparr>con_log := con_log w @ [ConOpen, ConDbmsName, ConDbmsVersion]\<rparr>;
              dbmsID = dbmsName c @ dbmsVersion c
          in case map_of (g_dbms_paths w1) dbmsID of
               Some base \<Rightarrow> (Inr (base @ contextFolder context), w1)
             | None \<Rightarrow>
                (let startPath = applicationDirPath fs @ ''/scripts/''
                                   @ (if isOdbc c then ''odbc/'' else []);
                     w2 = w1\<lparr>fs_log := fs_log w1 @ [DirExists startPath]\<rparr>
                 in if \<not> dir_exists fs startPath
                    then (Inl (DirectoryDoesNotExist startPath), w2)
                    else
                     (let subdirs = entryList fs startPath;
                          w3 = w2\<lparr>fs_log := fs_log w2 @ [EntryList startPath],
                                  con_log := con_log w2 @ [ConDbmsName]\<rparr>
                      in if dbmsName c = []
                         then (Inl UnableToGetDbmsName, w3)
                         else
                          (let endPath = find_folder (dbmsName c) subdirs;
                               vendorPath = (if endPath = [] \<and> isOdbc c
                                             then startPath @ ''default/''
                                             else startPath @ endPath);
                               w4 = w3\<lparr>fs_log := fs_log w3
                                        @ [FileExists (vendorPath @ contextFolder context)]\<rparr>
                           in if \<not> file_exists fs (vendorPath @ contextFolder context)
                              then (Inl (DirectoryNotAvailable (vendorPath @ contextFolder context)), w4)
                              else (Inr (vendorPath @ contextFolder context),
                                    w4\<lparr>g_dbms_paths :=
                                         qhash_insert dbmsID vendorPath (g_dbms_paths w4)\<rparr>))))))"


section \<open>The script registry: \<^verbatim>\<open>refresh\<close> and \<^verbatim>\<open>getScript\<close>\<close>

text \<open>The loop over \<open>files\<close>. \<open>bunch\<close> is a reference into \<^verbatim>\<open>_scripts\<close>, so every insert is
  an update of the cache. The message of the failure names \<^verbatim>\<open>files.at(0)\<close>.\<close>

text \<open>The value \<^verbatim>\<open>Scripting::Script { versionSpecificPart(...), ... }\<close> built from a file's
  text; the root context passes the version \<open>-1\<close> and does not ask the connection.\<close>

definition make_script :: "DbConnection \<Rightarrow> Context \<Rightarrow> string \<Rightarrow> string \<Rightarrow> Script" where
  "make_script c context sfx text =
     \<lparr>body = versionSpecificPart text
               (if context = Root then - 1 else dbmsComparableVersion c),
      stype = (if sfx = ''sql'' then SQL else QS)\<rparr>"

fun load_files ::
  "DbConnection \<Rightarrow> Context \<Rightarrow> string \<Rightarrow> FileInfo list \<Rightarrow> FileInfo list \<Rightarrow> World \<Rightarrow> (error + unit) \<times> World" where
  "load_files c context path files [] w = (Inr (), w)"
| "load_files c context path files (f # fs) w =
     (let sfx = toLower (suffix f)
      in if sfx \<noteq> ''sql'' \<and> sfx \<noteq> ''qs'' then load_files c context path files fs w
         else
          (let w1 = w\<lparr>fs_log := fs_log w @ [OpenFile (filePath f)]\<rparr>
           in case content f of
                None \<Rightarrow> (Inl (CantOpen (filePath (files ! 0))), w1)
              | Some text \<Rightarrow>
                 (let w2 = (if context = Root then w1
                            else w1\<lparr>con_log := con_log w1 @ [ConComparableVersion]\<rparr>)
                  in load_files c context path files fs
                       (set_bunch path
                          (qhash_insert (baseName f) (make_script c context sfx text)
                             (get_bunch path w2)) w2))))"

definition refresh ::
  "FileSystem \<Rightarrow> DbConnection option \<Rightarrow> Context \<Rightarrow> World \<Rightarrow> (error + unit) \<times> World" where
  "refresh fs con context w =
     (case con of
        None \<Rightarrow> (Inr (), w)
      | Some c \<Rightarrow>
         (case dbmsScriptPath fs con context w of
            (Inl e, w1) \<Rightarrow> (Inl e, w1)
          | (Inr path, w1) \<Rightarrow>
             (let w2 = set_bunch path [] w1;
                  files = entryInfoList fs path;
                  w3 = w2\<lparr>fs_log := fs_log w2 @ [EntryInfoList path]\<rparr>
              in load_files c context path files files w3)))"

definition getScript ::
  "FileSystem \<Rightarrow> DbConnection option \<Rightarrow> Context \<Rightarrow> string \<Rightarrow> World \<Rightarrow> (error + Script option) \<times> World" where
  "getScript fs con context objectType w =
     (case dbmsScriptPath fs con context w of
        (Inl e, w1) \<Rightarrow> (Inl e, w1)
      | (Inr path, w1) \<Rightarrow>
         if get_bunch path w1 = []
         then (case refresh fs con context w1 of
                 (Inl e, w2) \<Rightarrow> (Inl e, w2)
               | (Inr u, w2) \<Rightarrow> (Inr (map_of (get_bunch path w2) objectType), w2))
         else (Inr (map_of (get_bunch path w1) objectType), w1))"


section \<open>The conductor\<close>

record CppConductor =
  resultsets :: "DataTable list"
  scripts :: "string list"
  html :: "string list"

definition new_conductor :: CppConductor where
  "new_conductor = \<lparr>resultsets = [], scripts = [], html = []\<rparr>"

definition appendTable :: "DataTable \<Rightarrow> CppConductor \<Rightarrow> CppConductor" where
  "appendTable t env = env\<lparr>resultsets := resultsets env @ [t]\<rparr>"

definition appendScript :: "string \<Rightarrow> CppConductor \<Rightarrow> CppConductor" where
  "appendScript s env = env\<lparr>scripts := scripts env @ [s]\<rparr>"

definition appendHtml :: "string \<Rightarrow> CppConductor \<Rightarrow> CppConductor" where
  "appendHtml h env = env\<lparr>html := html env @ [h]\<rparr>"

text \<open>\<^verbatim>\<open>clear()\<close>: \<^verbatim>\<open>qDeleteAll(resultsets)\<close>, then the three sequences are emptied.\<close>

definition clear :: "CppConductor \<times> World \<Rightarrow> CppConductor \<times> World" where
  "clear ew = (case ew of (env, w) \<Rightarrow>
     (new_conductor, w\<lparr>deleted := deleted w @ map addr (resultsets env)\<rparr>))"

text \<open>The destructor \<^verbatim>\<open>~CppConductor\<close> calls \<^verbatim>\<open>clear()\<close>; the object is gone afterwards. It
  runs when the \<^verbatim>\<open>unique_ptr\<close> that owns the conductor goes out of scope.\<close>

definition destroy :: "CppConductor \<Rightarrow> World \<Rightarrow> World" where
  "destroy env w = snd (clear (env, w))"


section \<open>Execution: \<^verbatim>\<open>execute\<close>\<close>

text \<open>The cell \<^verbatim>\<open>t->value(0, 0).toString()\<close> and the name \<^verbatim>\<open>t->getColumn(0).name()\<close>.\<close>

definition value00 :: "DataTable \<Rightarrow> string" where
  "value00 t = cells t ! 0 ! 0"

definition columnName0 :: "DataTable \<Rightarrow> string" where
  "columnName0 t = colNames t ! 0"

text \<open>The loop \<^verbatim>\<open>for (int i = size - 1; i >= 0; --i)\<close> over \<^verbatim>\<open>_resultsets\<close>; the first argument
  is \<open>i + 1\<close>. \<^verbatim>\<open>removeAt(i)\<close> takes the element out of the list, and a table that is not
  handed to the conductor is deleted.\<close>

fun classify :: "nat \<Rightarrow> DataTable list \<Rightarrow> CppConductor \<times> World \<Rightarrow> CppConductor \<times> World" where
  "classify 0 rs (env, w) = (env, w)"
| "classify (Suc i) rs (env, w) =
     (let t = rs ! i;
          rs' = take i rs @ drop (Suc i) rs
      in if rowCount t = 1 \<and> columnCount t = 1
         then (let cn = columnName0 t
               in if cn = ''script''
                  then classify i rs' (appendScript (value00 t) env, w\<lparr>deleted := deleted w @ [addr t]\<rparr>)
                  else if cn = ''html''
                  then classify i rs' (appendHtml (value00 t) env, w\<lparr>deleted := deleted w @ [addr t]\<rparr>)
                  else classify i rs' (appendTable t env, w))
         else classify i rs' (appendTable t env, w))"

text \<open>What the evaluation of a text by the script engine does, as far as this code sees it:
  the calls the script makes on the two bound objects, in order, and the error value it ends
  with, if any (line number and message).\<close>

datatype JsCall = ReturnTable DataTable | ReturnScript string | EnvValue string
  | ConnectionExecute string

record JsOutcome =
  js_calls :: "JsCall list"
  js_error :: "(int \<times> string) option"

fun run_call :: "JsCall \<Rightarrow> CppConductor \<times> World \<Rightarrow> CppConductor \<times> World" where
  "run_call (ReturnTable t) (env, w) = (appendTable t env, w)"
| "run_call (ReturnScript s) (env, w) = (appendScript s env, w)"
| "run_call (EnvValue n) (env, w) = (env, w\<lparr>cb_log := cb_log w @ [n]\<rparr>)"
| "run_call (ConnectionExecute q) (env, w) = (env, w\<lparr>con_log := con_log w @ [ConExecute q]\<rparr>)"

definition execute ::
  "FileSystem \<Rightarrow> (string \<Rightarrow> JsOutcome) \<Rightarrow> DbConnection option \<Rightarrow> Context \<Rightarrow> string
     \<Rightarrow> (string \<Rightarrow> string) \<Rightarrow> World \<Rightarrow> (error + CppConductor option) \<times> World" where
  "execute fs js con context objectType envCallback w =
     (let env = new_conductor
      in case getScript fs con context objectType w of
           (Inl e, w1) \<Rightarrow> (Inl e, destroy env w1)
         | (Inr None, w1) \<Rightarrow> (Inr None, destroy env w1)
         | (Inr (Some s), w1) \<Rightarrow>
            (case expand_macros envCallback (body s) of (query, calls) \<Rightarrow>
             (let w2 = w1\<lparr>cb_log := cb_log w1 @ calls\<rparr>
              in case stype s of
                   SQL \<Rightarrow>
                    (case con of
                       None \<Rightarrow> (Inl DbConnectionUnavailable, destroy env w2)
                     | Some c \<Rightarrow>
                        (let w3 = w2\<lparr>con_log := con_log w2 @ [ConExecute query]\<rparr>;
                             rs = exec_result c query
                         in case classify (length rs) rs (env, w3) of
                              (env', w4) \<Rightarrow> (Inr (Some env'), w4)))
                 | QS \<Rightarrow>
                    (let w3 = w2\<lparr>js_log := js_log w2 @ [query]\<rparr>;
                         outcome = js query
                     in case foldl (\<lambda>ew call. run_call call ew) (env, w3) (js_calls outcome) of
                          (env', w4) \<Rightarrow>
                            (case js_error outcome of
                               Some (line, msg) \<Rightarrow> (Inl (ErrorAtLine line msg), destroy env' w4)
                             | None \<Rightarrow> (Inr (Some env'), w4))))))"


section \<open>Notions used in the statements\<close>

text \<open>The three outcomes of the classification of a result set, as the conditions of the
  loop in \<open>execute\<close> read.\<close>

definition is_1x1 :: "DataTable \<Rightarrow> bool" where
  "is_1x1 t = (rowCount t = 1 \<and> columnCount t = 1)"

definition is_script_result :: "DataTable \<Rightarrow> bool" where
  "is_script_result t = (is_1x1 t \<and> columnName0 t = ''script'')"

definition is_html_result :: "DataTable \<Rightarrow> bool" where
  "is_html_result t = (is_1x1 t \<and> columnName0 t = ''html'')"

definition is_table_result :: "DataTable \<Rightarrow> bool" where
  "is_table_result t = (\<not> is_script_result t \<and> \<not> is_html_result t)"

text \<open>The files that \<open>refresh\<close> loads, and the script it stores for a readable one.\<close>

definition is_script_file :: "FileInfo \<Rightarrow> bool" where
  "is_script_file f = (toLower (suffix f) = ''sql'' \<or> toLower (suffix f) = ''qs'')"

definition loaded_script :: "DbConnection \<Rightarrow> Context \<Rightarrow> FileInfo \<Rightarrow> Script" where
  "loaded_script c context f =
     make_script c context (toLower (suffix f)) (case content f of Some text \<Rightarrow> text | None \<Rightarrow> [])"

definition loaded_bunch ::
  "DbConnection \<Rightarrow> Context \<Rightarrow> FileInfo list \<Rightarrow> (string \<times> Script) list \<Rightarrow> (string \<times> Script) list" where
  "loaded_bunch c context fs b =
     foldl (\<lambda>b f. qhash_insert (baseName f) (loaded_script c context f) b) b
       (filter is_script_file fs)"

text \<open>The value substituted for a macro: \<^verbatim>\<open>value.isEmpty() ? "NULL" : value\<close>.\<close>

definition substituted :: "(string \<Rightarrow> string) \<Rightarrow> string \<Rightarrow> string" where
  "substituted envCallback macro =
     (if envCallback macro = [] then ''NULL'' else envCallback macro)"

definition macro_token :: "string \<Rightarrow> string" where
  "macro_token macro = ''$'' @ macro @ ''$''"

text \<open>The queries executed on the connection, among the calls made on it.\<close>

definition executed :: "con_op list \<Rightarrow> string list" where
  "executed ops = concat (map (\<lambda>op. case op of ConExecute q \<Rightarrow> [q] | _ \<Rightarrow> []) ops)"

text \<open>The tables and sub-scripts an embedded script hands to the conductor.\<close>

definition returned_tables :: "JsCall list \<Rightarrow> DataTable list" where
  "returned_tables calls = concat (map (\<lambda>call. case call of ReturnTable t \<Rightarrow> [t] | _ \<Rightarrow> []) calls)"

definition returned_scripts :: "JsCall list \<Rightarrow> string list" where
  "returned_scripts calls = concat (map (\<lambda>call. case call of ReturnScript s \<Rightarrow> [s] | _ \<Rightarrow> []) calls)"

text \<open>The directory whose sub-directories are searched: \<open>startPath\<close> of \<open>dbmsScriptPath\<close>
  before the vendor folder is appended.\<close>

definition scripts_root :: "FileSystem \<Rightarrow> DbConnection \<Rightarrow> string" where
  "scripts_root fs c =
     applicationDirPath fs @ ''/scripts/'' @ (if isOdbc c then ''odbc/'' else [])"

text \<open>A macro name: the whole of it is matched by \<^verbatim>\<open>\w+\.\w+\<close>.\<close>

definition valid_name :: "string \<Rightarrow> bool" where
  "valid_name n =
     (takeWhile is_word n \<noteq> [] \<and>
      (case dropWhile is_word n of
         [] \<Rightarrow> False
       | c # w2 \<Rightarrow> c = CHR ''.'' \<and> w2 \<noteq> [] \<and> list_all is_word w2))"

text \<open>A text made of macro tokens and of the pieces around them: the piece \<open>p0\<close>, then each
  token followed by its piece; and the same text with every token replaced by the value
  substituted for its macro.\<close>

definition tokens_text :: "string \<Rightarrow> (string \<times> string) list \<Rightarrow> string" where
  "tokens_text p0 nps = p0 @ concat (map (\<lambda>np. macro_token (fst np) @ snd np) nps)"

definition substituted_text ::
  "(string \<Rightarrow> string) \<Rightarrow> string \<Rightarrow> (string \<times> string) list \<Rightarrow> string" where
  "substituted_text envCallback p0 nps =
     p0 @ concat (map (\<lambda>np. substituted envCallback (fst np) @ snd np) nps)"

text \<open>A piece that holds a character which is neither a word character, nor a dot, nor a
  dollar; and a text in which every piece between two tokens is such a piece.\<close>

definition has_separator :: "string \<Rightarrow> bool" where
  "has_separator p = list_ex (\<lambda>c. \<not> is_word c \<and> c \<noteq> CHR ''.'' \<and> c \<noteq> CHR ''$'') p"

fun separated :: "(string \<times> string) list \<Rightarrow> bool" where
  "separated [] = True"
| "separated [np] = True"
| "separated (np # np' # nps) = (has_separator (snd np) \<and> separated (np' # nps))"

text \<open>The expansion in the words of the specification (section 4.4), for comparison with
  \<open>expand_macros\<close>: every macro token of the text is replaced by the value of its macro
  (\<open>NULL\<close> for an empty value), the tokens being the matches of the pattern in the text.\<close>

function substitute_macros :: "(string \<Rightarrow> string) \<Rightarrow> string \<Rightarrow> string" where
  "substitute_macros envCallback [] = []"
| "substitute_macros envCallback (c # cs) =
     (case match_macro (c # cs) of
        Some m \<Rightarrow> substituted envCallback m @ substitute_macros envCallback (drop (Suc (length m)) cs)
      | None \<Rightarrow> c # substitute_macros envCallback cs)"
  by pat_completeness auto
termination
  by (relation "measure (\<lambda>(envCallback, s). length s)") auto

text \<open>The text with the tokens of the macros in \<open>S\<close> replaced and the others still in place.\<close>

definition partly_substituted ::
  "(string \<Rightarrow> string) \<Rightarrow> string set \<Rightarrow> string \<Rightarrow> (string \<times> string) list \<Rightarrow> string" where
  "partly_substituted envCallback S p0 nps =
     p0 @ concat (map (\<lambda>np. (if fst np \<in> S then substituted envCallback (fst np)
                                else macro_token (fst np)) @ snd np) nps)"


text \<open>The marker comment at the head of a text at which \<open>match_marker\<close> succeeds: the
  characters that the pattern inside the lookahead runs over.\<close>

definition marker_comment :: "string \<Rightarrow> string" where
  "marker_comment s =
     (let r1 = drop 2 s;
          r2 = drop 1 (dropWhile is_space r1);
          r3 = drop 1 (dropWhile is_digit r2)
      in ''/*'' @ takeWhile is_space r1 @ ''V'' @ takeWhile is_digit r2 @ ''+''
           @ takeWhile is_space r3 @ ''*/'')"


section \<open>Example inputs\<close>

text \<open>The script of the specification's example: three markers with the contents A, B, C.\<close>

definition ex_versioned :: string where
  "ex_versioned = ''/* V100+ */A/* V200+ */B/* V300+ */C''"

text \<open>Two markers that share a slash: the second begins at the closing slash of the first.\<close>

definition ex_shared_slash :: string where
  "ex_shared_slash = ''/* V1+ */* V2+ */x''"

text \<open>An installation with a PostgreSQL folder and an ODBC tree that has no folder for the
  connected product. The \<open>tree\<close> folder holds an SQL script and an embedded script; the
  \<open>content\<close> folder holds a file that cannot be opened between two that can.\<close>

definition ex_files_tree :: "FileInfo list" where
  "ex_files_tree =
     [\<lparr>baseName = ''indexes'', suffix = ''sql'', filePath = ''t/indexes.sql'',
        content = Some ''/* V90000+ */ select $a.b$''\<rparr>,
      \<lparr>baseName = ''report'', suffix = ''qs'', filePath = ''t/report.qs'',
        content = Some ''run()''\<rparr>,
      \<lparr>baseName = ''notes'', suffix = ''txt'', filePath = ''t/notes.txt'',
        content = None\<rparr>]"

definition ex_files_content :: "FileInfo list" where
  "ex_files_content =
     [\<lparr>baseName = ''a'', suffix = ''sql'', filePath = ''c/a.sql'', content = Some ''select 1''\<rparr>,
      \<lparr>baseName = ''b'', suffix = ''SQL'', filePath = ''c/b.SQL'', content = None\<rparr>,
      \<lparr>baseName = ''c'', suffix = ''sql'', filePath = ''c/c.sql'', content = Some ''select 3''\<rparr>]"

definition ex_fs :: FileSystem where
  "ex_fs =
     \<lparr>applicationDirPath = ''/app'',
      dir_exists = (\<lambda>p. p = ''/app/scripts/'' \<or> p = ''/app/scripts/odbc/''),
      entryList = (\<lambda>p. if p = ''/app/scripts/'' then [''mysql'', ''postgresql'', ''sql'']
                        else if p = ''/app/scripts/odbc/'' then [''microsoft sql'']
                        else []),
      file_exists = (\<lambda>p. p = ''/app/scripts/postgresql/tree/''
                        \<or> p = ''/app/scripts/postgresql/content/''
                        \<or> p = ''/app/scripts/odbc/default/tree/''),
      entryInfoList = (\<lambda>p. if p = ''/app/scripts/postgresql/tree/'' then ex_files_tree
                            else if p = ''/app/scripts/postgresql/content/'' then ex_files_content
                            else [])\<rparr>"

text \<open>A file system on which every request fails.\<close>

definition ex_no_fs :: FileSystem where
  "ex_no_fs =
     \<lparr>applicationDirPath = [], dir_exists = (\<lambda>p. False), entryList = (\<lambda>p. []),
      file_exists = (\<lambda>p. False), entryInfoList = (\<lambda>p. [])\<rparr>"

definition ex_t_script :: DataTable where
  "ex_t_script = \<lparr>addr = 1, colNames = [''script''], cells = [[''select 2'']]\<rparr>"

definition ex_t_html :: DataTable where
  "ex_t_html = \<lparr>addr = 2, colNames = [''html''], cells = [[''<b>1</b>'']]\<rparr>"

definition ex_t_named :: DataTable where
  "ex_t_named = \<lparr>addr = 3, colNames = [''n''], cells = [[''7'']]\<rparr>"

definition ex_t_wide :: DataTable where
  "ex_t_wide = \<lparr>addr = 4, colNames = [''script'', ''html''], cells = [[''1'', ''2'']]\<rparr>"

definition ex_con :: DbConnection where
  "ex_con =
     \<lparr>dbmsName = ''PostgreSQL 14.3'', dbmsVersion = ''14.3'', dbmsComparableVersion = 90001,
      isOdbc = False,
      exec_result = (\<lambda>q. [ex_t_script, ex_t_named, ex_t_html, ex_t_wide])\<rparr>"

definition ex_odbc :: DbConnection where
  "ex_odbc =
     \<lparr>dbmsName = ''Acme DB'', dbmsVersion = ''1'', dbmsComparableVersion = 1,
      isOdbc = True, exec_result = (\<lambda>q. [])\<rparr>"

definition ex_world :: World where
  "ex_world =
     \<lparr>g_dbms_paths = [], g_scripts = [], fs_log = [], con_log = [], cb_log = [], js_log = [],
      deleted = []\<rparr>"

text \<open>An evaluation that hands a table and a sub-script to the conductor and then fails.\<close>

definition ex_js :: "string \<Rightarrow> JsOutcome" where
  "ex_js q = \<lparr>js_calls = [ReturnTable ex_t_named, ReturnScript ''select 3''],
              js_error = Some (1, ''ReferenceError: run is not defined'')\<rparr>"

definition ex_env :: "string \<Rightarrow> string" where
  "ex_env m = (if m = ''a.b'' then [] else if m = ''q.r'' then ''Q'' else ''A'')"

definition ex_env2 :: "string \<Rightarrow> string" where
  "ex_env2 m = (if m = ''q.r'' then ''Q'' else ''A'')"



section \<open>Properties of version partitioning\<close>

lemma qmap_insert_map_of: "map_of (qmap_insert k v m) = (map_of m)(k \<mapsto> v)"
  by (induction m) (auto simp: fun_upd_twist)

lemma qmap_insert_keys: "fst ` set (qmap_insert k v m) = insert k (fst ` set m)"
  by (simp add: dom_map_of_conv_image_fst[symmetric] qmap_insert_map_of)

lemma qmap_insert_sorted:
  "sorted_wrt (<) (map fst m) \<Longrightarrow> sorted_wrt (<) (map fst (qmap_insert k v m))"
proof (induction m)
  case Nil
  then show ?case by simp
next
  case (Cons a m)
  obtain k' v' where a: "a = (k', v')" by (cases a)
  have "\<forall>x \<in> fst ` set (qmap_insert k v m). k' < x" if "k' < k"
    using Cons.prems that by (auto simp: qmap_insert_keys a)
  with Cons show ?case by (auto simp: a)
qed

lemma collect_parts_fold:
  "collect_parts script ms parts = foldl (\<lambda>m (k, v). qmap_insert k v m) parts (segments script ms)"
  by (induction script ms parts rule: collect_parts.induct) simp_all

lemma fold_insert_sorted:
  "sorted_wrt (<) (map fst parts) \<Longrightarrow>
   sorted_wrt (<) (map fst (foldl (\<lambda>m (k, v). qmap_insert k v m) parts segs))"
  by (induction segs arbitrary: parts) (auto simp: qmap_insert_sorted)

lemma fold_insert_map_of:
  "map_of (foldl (\<lambda>m (k, v). qmap_insert k v m) parts segs) = map_of parts ++ map_of (rev segs)"
  by (induction segs arbitrary: parts) (auto simp: qmap_insert_map_of map_add_upd_left)

lemma fold_insert_keys:
  "fst ` set (foldl (\<lambda>m (k, v). qmap_insert k v m) parts segs) = fst ` set parts \<union> fst ` set segs"
  by (simp add: dom_map_of_conv_image_fst[symmetric] fold_insert_map_of)
     (auto simp: dom_map_of_conv_image_fst)

lemma search_highest_none:
  "\<forall>k \<in> fst ` set m. version < k \<Longrightarrow> search_highest m version = ''''"
  by (induction m) auto

lemma search_highest_rev_sorted:
  assumes "sorted_wrt (<) (map fst m)" "\<exists>k \<in> fst ` set m. k \<le> version"
  shows "map_of m (Max {k \<in> fst ` set m. k \<le> version}) = Some (search_highest (rev m) version)"
  using assms
proof (induction m rule: rev_induct)
  case Nil
  then show ?case by simp
next
  case (snoc a m)
  obtain k v where a: "a = (k, v)" by (cases a)
  from snoc.prems(1) have sm: "sorted_wrt (<) (map fst m)" and lt: "\<forall>x \<in> fst ` set m. x < k"
    by (auto simp: a sorted_wrt_append)
  show ?case
  proof (cases "k \<le> version")
    case True
    have "Max {x \<in> fst ` set (m @ [a]). x \<le> version} = k"
      using True lt by (intro Max_eqI) (auto simp: a intro: less_imp_le)
    moreover have "map_of (m @ [a]) k = Some v"
      using lt by (auto simp: a map_add_Some_iff map_of_eq_None_iff)
    ultimately show ?thesis using True by (simp add: a)
  next
    case False
    then have ex: "\<exists>x \<in> fst ` set m. x \<le> version" using snoc.prems(2) by (auto simp: a)
    have eq: "{x \<in> fst ` set (m @ [a]). x \<le> version} = {x \<in> fst ` set m. x \<le> version}"
      using False by (auto simp: a)
    have fin: "finite {x \<in> fst ` set m. x \<le> version}" by simp
    have ne: "{x \<in> fst ` set m. x \<le> version} \<noteq> {}" using ex by auto
    have "Max {x \<in> fst ` set m. x \<le> version} \<in> {x \<in> fst ` set m. x \<le> version}"
      using Max_in[OF fin ne] .
    then have "Max {x \<in> fst ` set m. x \<le> version} \<noteq> k" using lt by auto
    then have "map_of (m @ [a]) (Max {x \<in> fst ` set m. x \<le> version}) = map_of m (Max {x \<in> fst ` set m. x \<le> version})"
      by (simp add: a map_add_def split: option.split)
    with snoc.IH[OF sm ex] eq False show ?thesis by (simp add: a)
  qed
qed

lemma decimal_nonneg: "0 \<le> toInt ds"
  by (simp add: toInt_def Let_def)

lemma segments_keys_nonneg: "k \<in> fst ` set (segments script ms) \<Longrightarrow> 0 \<le> k"
  by (induction script ms rule: segments.induct) (auto simp: decimal_nonneg)

lemma segments_Nil_iff: "segments script ms = [] \<longleftrightarrow> ms = []"
  by (induction script ms rule: segments.induct) auto


lemma expect_Some: "expect c s = Some r \<longleftrightarrow> s = c # r"
  by (cases s) auto

lemma match_marker_head: "match_marker t = Some d \<Longrightarrow> \<exists>r. t = CHR ''/'' # CHR ''*'' # r"
  by (auto simp: match_marker_def bind_eq_Some_conv expect_Some)

lemma globalMatch_mem:
  "(p, d) \<in> set (globalMatch q s) \<Longrightarrow> q \<le> p \<and> p < q + length s \<and> match_marker (drop (p - q) s) = Some d"
proof (induction s arbitrary: q)
  case Nil
  then show ?case by simp
next
  case (Cons c cs)
  from Cons.prems have "(p = q \<and> match_marker (c # cs) = Some d) \<or> (p, d) \<in> set (globalMatch (Suc q) cs)"
    by (auto split: option.splits)
  then show ?case
  proof
    assume "p = q \<and> match_marker (c # cs) = Some d"
    then show ?thesis by simp
  next
    assume "(p, d) \<in> set (globalMatch (Suc q) cs)"
    from Cons.IH[OF this] have ih: "Suc q \<le> p" "p < Suc q + length cs"
      "match_marker (drop (p - Suc q) cs) = Some d" by auto
    from ih(1) have "p - q = Suc (p - Suc q)" by simp
    with ih show ?thesis by simp
  qed
qed

lemma globalMatch_sorted: "sorted_wrt (<) (map fst (globalMatch q s))"
proof (induction s arbitrary: q)
  case Nil
  then show ?case by simp
next
  case (Cons c cs)
  have "q < p" if "(p, d) \<in> set (globalMatch (Suc q) cs)" for p d
    using globalMatch_mem[OF that] by simp
  with Cons.IH[of "Suc q"] show ?case by (auto split: option.splits)
qed

lemma search_highest_mem:
  "search_highest m version \<noteq> '''' \<Longrightarrow> \<exists>k. (k, search_highest m version) \<in> set m"
  by (induction m) (auto split: if_splits)

lemma qmap_insert_set: "set (qmap_insert k v m) \<subseteq> insert (k, v) (set m)"
proof (induction m)
  case Nil
  then show ?case by simp
next
  case (Cons a m)
  obtain k' v' where a: "a = (k', v')" by (cases a)
  consider "k < k'" | "k = k'" | "k' < k" by linarith
  then show ?case
  proof cases
    case 1
    then show ?thesis by (simp add: a)
  next
    case 2
    then show ?thesis by (auto simp: a)
  next
    case 3
    then show ?thesis using Cons.IH by (auto simp: a)
  qed
qed

lemma fold_insert_set:
  "set (foldl (\<lambda>m (k, v). qmap_insert k v m) parts segs) \<subseteq> set parts \<union> set segs"
proof (induction segs arbitrary: parts)
  case Nil
  then show ?case by simp
next
  case (Cons a segs)
  obtain k v where a: "a = (k, v)" by (cases a)
  show ?case using Cons.IH[of "qmap_insert k v parts"] qmap_insert_set[of k v parts]
    by (auto simp: a)
qed

lemma segments_mem:
  "(k, val) \<in> set (segments script ms) \<Longrightarrow>
   \<exists>i < length ms. k = toInt (snd (ms ! i)) \<and>
      val = (if Suc i < length ms
             then mid script (fst (ms ! i)) (int (fst (ms ! Suc i)) - int (fst (ms ! i)))
             else drop (fst (ms ! i)) script)"
proof (induction script ms rule: segments.induct)
  case (1 script)
  then show ?case by simp
next
  case (2 script p d)
  then show ?case by simp
next
  case (3 script p d p' d' ms)
  from "3.prems" have "(k = toInt d \<and> val = mid script p (int p' - int p)) \<or>
      (k, val) \<in> set (segments script ((p', d') # ms))" by auto
  then show ?case
  proof
    assume "k = toInt d \<and> val = mid script p (int p' - int p)"
    then show ?thesis by (intro exI[of _ 0]) simp
  next
    assume "(k, val) \<in> set (segments script ((p', d') # ms))"
    from "3.IH"[OF this] obtain i where i: "i < length ((p', d') # ms)"
      "k = toInt (snd (((p', d') # ms) ! i))"
      "val = (if Suc i < length ((p', d') # ms)
             then mid script (fst (((p', d') # ms) ! i)) (int (fst (((p', d') # ms) ! Suc i)) - int (fst (((p', d') # ms) ! i)))
             else drop (fst (((p', d') # ms) ! i)) script)" by blast
    show ?thesis by (rule exI[of _ "Suc i"]) (use i in simp)
  qed
qed

lemma globalMatch_gap:
  assumes "Suc i < length (globalMatch 0 script)"
  shows "fst (globalMatch 0 script ! i) + 2 \<le> fst (globalMatch 0 script ! Suc i)"
proof -
  let ?ms = "globalMatch 0 script"
  obtain p d where pd: "?ms ! i = (p, d)" by (cases "?ms ! i")
  obtain p' d' where pd': "?ms ! Suc i = (p', d')" by (cases "?ms ! Suc i")
  have m1: "(p, d) \<in> set ?ms" using assms pd by (metis Suc_lessD nth_mem)
  have m2: "(p', d') \<in> set ?ms" using assms pd' by (metis nth_mem)
  have lt: "p < p'"
    using sorted_wrt_nth_less[OF globalMatch_sorted[of 0 script], of i "Suc i"] assms pd pd'
    by (simp add: nth_map)
  from globalMatch_mem[OF m1] match_marker_head obtain r where r: "drop p script = CHR ''/'' # CHR ''*'' # r"
    by (metis diff_zero)
  from globalMatch_mem[OF m2] match_marker_head obtain r' where r': "drop p' script = CHR ''/'' # CHR ''*'' # r'"
    by (metis diff_zero)
  have "p' \<noteq> Suc p"
  proof
    assume "p' = Suc p"
    then have "drop p' script = drop 1 (drop p script)" by simp
    with r r' show False by simp
  qed
  with lt show ?thesis by (simp add: pd pd')
qed


lemma versionSpecificPart_slice:
  assumes "globalMatch 0 script \<noteq> []" and "versionSpecificPart script version \<noteq> ''''"
  shows "\<exists>i < length (globalMatch 0 script).
           versionSpecificPart script version =
             (if Suc i < length (globalMatch 0 script)
              then take (fst (globalMatch 0 script ! Suc i) - fst (globalMatch 0 script ! i))
                        (drop (fst (globalMatch 0 script ! i)) script)
              else drop (fst (globalMatch 0 script ! i)) script)
           \<and> match_marker (drop (fst (globalMatch 0 script ! i)) script) = Some (snd (globalMatch 0 script ! i))
           \<and> take 2 (versionSpecificPart script version) = ''/*''"
proof -
  let ?ms = "globalMatch 0 script"
  let ?r = "versionSpecificPart script version"
  have vsp: "?r = search_highest (rev (collect_parts script ?ms [])) version"
    using assms(1) by (simp add: versionSpecificPart_def)
  from search_highest_mem[of "rev (collect_parts script ?ms [])" version] assms(2)
  obtain k where "(k, ?r) \<in> set (collect_parts script ?ms [])"
    unfolding vsp by auto
  then have "(k, ?r) \<in> set (segments script ?ms)"
    using fold_insert_set[of "[]" "segments script ?ms"] by (auto simp: collect_parts_fold)
  from segments_mem[OF this] obtain i where i: "i < length ?ms"
    and val: "?r = (if Suc i < length ?ms
             then mid script (fst (?ms ! i)) (int (fst (?ms ! Suc i)) - int (fst (?ms ! i)))
             else drop (fst (?ms ! i)) script)" by blast
  obtain p d where pd: "?ms ! i = (p, d)" by (cases "?ms ! i")
  have mem: "(p, d) \<in> set ?ms" using i pd by (metis nth_mem)
  from globalMatch_mem[OF mem] have mm: "match_marker (drop p script) = Some d" by simp
  from match_marker_head[OF mm] obtain r where r: "drop p script = CHR ''/'' # CHR ''*'' # r" by blast
  have gap: "p + 2 \<le> fst (?ms ! Suc i)" if "Suc i < length ?ms"
    using globalMatch_gap[OF that] by (simp add: pd)
  have val': "?r = (if Suc i < length ?ms then take (fst (?ms ! Suc i) - p) (drop p script) else drop p script)"
    using val gap by (auto simp: pd mid_def nat_diff_distrib')
  have "take 2 ?r = ''/*''"
  proof (cases "Suc i < length ?ms")
    case True
    from gap[OF True] have "min 2 (fst (?ms ! Suc i) - p) = 2" by simp
    then show ?thesis using True by (simp add: val' r)
  next
    case False
    then show ?thesis by (simp add: val' r)
  qed
  with val' mm i show ?thesis by (intro exI[of _ i]) (simp add: pd)
qed

text \<open>The marker comment at a match, and the distance between two consecutive matches.\<close>

lemma not_space_slash: "\<not> is_space CHR ''/''"
  by (simp add: is_space_def)

lemma not_digit_slash: "\<not> is_digit CHR ''/''"
  by (simp add: is_digit_def)

lemma marker_comment_decomp:
  assumes "match_marker t = Some d"
  shows "\<exists>inner r. t = CHR ''/'' # inner @ CHR ''/'' # r \<and> CHR ''/'' \<notin> set inner
           \<and> marker_comment t = CHR ''/'' # inner @ ''/''"
proof -
  from assms obtain r1 r2 r3 r5 where
    t: "t = CHR ''/'' # CHR ''*'' # r1"
    and d1: "dropWhile is_space r1 = CHR ''V'' # r2"
    and d2: "dropWhile is_digit r2 = CHR ''+'' # r3"
    and d3: "dropWhile is_space r3 = CHR ''*'' # CHR ''/'' # r5"
    by (auto simp: match_marker_def bind_eq_Some_conv expect_Some split: if_splits)
  let ?sp1 = "takeWhile is_space r1" and ?ds = "takeWhile is_digit r2"
    and ?sp2 = "takeWhile is_space r3"
  let ?inner = "CHR ''*'' # ?sp1 @ CHR ''V'' # ?ds @ CHR ''+'' # ?sp2 @ ''*''"
  have e1: "r1 = ?sp1 @ CHR ''V'' # r2"
    using takeWhile_dropWhile_id[of is_space r1] by (simp only: d1)
  have e2: "r2 = ?ds @ CHR ''+'' # r3"
    using takeWhile_dropWhile_id[of is_digit r2] by (simp only: d2)
  have e3: "r3 = ?sp2 @ CHR ''*'' # CHR ''/'' # r5"
    using takeWhile_dropWhile_id[of is_space r3] by (simp only: d3)
  have "r1 = ?sp1 @ CHR ''V'' # ?ds @ CHR ''+'' # ?sp2 @ CHR ''*'' # CHR ''/'' # r5"
    using e1 e2 e3 by metis
  then have eq: "t = CHR ''/'' # ?inner @ CHR ''/'' # r5"
    by (simp add: t)
  have s1: "CHR ''/'' \<notin> set ?sp1" using not_space_slash by (auto dest: set_takeWhileD)
  have s2: "CHR ''/'' \<notin> set ?ds" using not_digit_slash by (auto dest: set_takeWhileD)
  have s3: "CHR ''/'' \<notin> set ?sp2" using not_space_slash by (auto dest: set_takeWhileD)
  have ni: "CHR ''/'' \<notin> set ?inner" using s1 s2 s3 by simp
  have mc: "marker_comment t = CHR ''/'' # ?inner @ ''/''"
    by (simp add: marker_comment_def t d1 d2)
  from eq ni mc show ?thesis by blast
qed

lemma drop_inside:
  assumes "0 < n" and "n \<le> length inner"
  shows "\<exists>y ys. drop n (c # inner @ rest) = y # ys \<and> y \<in> set inner"
proof -
  from assms obtain k where n: "n = Suc k" and k: "k < length inner"
    by (cases n) auto
  have "drop n (c # inner @ rest) = drop k inner @ rest" using k by (simp add: n)
  also have "\<dots> = inner ! k # drop (Suc k) inner @ rest"
    using k by (simp add: Cons_nth_drop_Suc)
  finally show ?thesis using k by simp
qed

lemma globalMatch_comment_gap:
  assumes "Suc i < length (globalMatch 0 script)"
  shows "fst (globalMatch 0 script ! i)
           + length (marker_comment (drop (fst (globalMatch 0 script ! i)) script))
         \<le> Suc (fst (globalMatch 0 script ! Suc i))"
proof -
  let ?ms = "globalMatch 0 script"
  obtain p d where pd: "?ms ! i = (p, d)" by (cases "?ms ! i")
  obtain p' d' where pd': "?ms ! Suc i = (p', d')" by (cases "?ms ! Suc i")
  have m1: "(p, d) \<in> set ?ms" using assms pd nth_mem[of i ?ms] by simp
  have m2: "(p', d') \<in> set ?ms" using assms pd' nth_mem[of "Suc i" ?ms] by simp
  have lt: "p < p'"
    using sorted_wrt_nth_less[OF globalMatch_sorted[of 0 script], of i "Suc i"] assms pd pd'
    by (simp add: nth_map)
  from globalMatch_mem[OF m1] have mm: "match_marker (drop p script) = Some d" by simp
  from globalMatch_mem[OF m2] have mm': "match_marker (drop p' script) = Some d'" by simp
  from marker_comment_decomp[OF mm] obtain inner r where
    dp: "drop p script = CHR ''/'' # inner @ CHR ''/'' # r" and ni: "CHR ''/'' \<notin> set inner"
    and mc: "marker_comment (drop p script) = CHR ''/'' # inner @ ''/''" by blast
  from match_marker_head[OF mm'] obtain r' where dp': "drop p' script = CHR ''/'' # CHR ''*'' # r'"
    by blast
  have dd: "drop (p' - p) (drop p script) = drop p' script" using lt by simp
  have "length inner < p' - p"
  proof (rule ccontr)
    assume "\<not> length inner < p' - p"
    then have le: "p' - p \<le> length inner" by simp
    have pos: "0 < p' - p" using lt by simp
    from drop_inside[OF pos le, of "CHR ''/''" "CHR ''/'' # r"] obtain y ys where
      "drop (p' - p) (CHR ''/'' # inner @ CHR ''/'' # r) = y # ys" "y \<in> set inner" by blast
    with dd dp dp' have "CHR ''/'' \<in> set inner" by simp
    with ni show False by simp
  qed
  then show ?thesis using lt by (simp add: pd pd' mc)
qed

lemma map_of_rev_last:
  "map_of (rev xs) k = Some v \<Longrightarrow>
   \<exists>i < length xs. xs ! i = (k, v) \<and> (\<forall>j < length xs. i < j \<longrightarrow> fst (xs ! j) \<noteq> k)"
proof (induction xs rule: rev_induct)
  case Nil
  then show ?case by simp
next
  case (snoc x xs)
  show ?case
  proof (cases "fst x = k")
    case True
    with snoc.prems have "x = (k, v)" by (cases x) simp
    then show ?thesis by (intro exI[of _ "length xs"]) simp
  next
    case False
    with snoc.prems have "map_of (rev xs) k = Some v" by (cases x) simp
    from snoc.IH[OF this] obtain i where i: "i < length xs" "xs ! i = (k, v)"
      "\<forall>j < length xs. i < j \<longrightarrow> fst (xs ! j) \<noteq> k" by blast
    have "\<forall>j < length (xs @ [x]). i < j \<longrightarrow> fst ((xs @ [x]) ! j) \<noteq> k"
    proof (intro allI impI)
      fix j assume j: "j < length (xs @ [x])" "i < j"
      show "fst ((xs @ [x]) ! j) \<noteq> k"
      proof (cases "j < length xs")
        case True
        with i(3) j(2) show ?thesis by (simp add: nth_append)
      next
        case False
        with j(1) have "j = length xs" by simp
        with False show ?thesis using \<open>fst x \<noteq> k\<close> by simp
      qed
    qed
    with i(1,2) show ?thesis by (intro exI[of _ i]) (simp add: nth_append)
  qed
qed

lemma length_segments: "length (segments script ms) = length ms"
  by (induction script ms rule: segments.induct) simp_all

lemma segments_nth:
  "i < length ms \<Longrightarrow>
   segments script ms ! i =
     (toInt (snd (ms ! i)),
      if Suc i < length ms
      then mid script (fst (ms ! i)) (int (fst (ms ! Suc i)) - int (fst (ms ! i)))
      else drop (fst (ms ! i)) script)"
proof (induction script ms arbitrary: i rule: segments.induct)
  case (1 script)
  then show ?case by simp
next
  case (2 script p d)
  then show ?case by simp
next
  case (3 script p d p' d' ms)
  show ?case
  proof (cases i)
    case 0
    then show ?thesis by simp
  next
    case (Suc k)
    with "3.prems" have "k < length ((p', d') # ms)" by simp
    from "3.IH"[OF this] show ?thesis by (simp add: Suc)
  qed
qed

lemma versionSpecificPart_selected:
  assumes "globalMatch 0 script \<noteq> []"
    and "\<exists>k \<in> fst ` set (segments script (globalMatch 0 script)). k \<le> version"
  shows "\<exists>i < length (globalMatch 0 script).
       toInt (snd (globalMatch 0 script ! i))
         = Max {k \<in> fst ` set (segments script (globalMatch 0 script)). k \<le> version}
     \<and> (\<forall>j < length (globalMatch 0 script). i < j \<longrightarrow>
           toInt (snd (globalMatch 0 script ! j))
             \<noteq> Max {k \<in> fst ` set (segments script (globalMatch 0 script)). k \<le> version})
     \<and> versionSpecificPart script version =
          (if Suc i < length (globalMatch 0 script)
           then take (fst (globalMatch 0 script ! Suc i) - fst (globalMatch 0 script ! i))
                     (drop (fst (globalMatch 0 script ! i)) script)
           else drop (fst (globalMatch 0 script ! i)) script)"
proof -
  let ?ms = "globalMatch 0 script"
  let ?segs = "segments script ?ms"
  let ?parts = "collect_parts script ?ms []"
  let ?K = "Max {k \<in> fst ` set ?segs. k \<le> version}"
  let ?r = "versionSpecificPart script version"
  have vsp: "?r = search_highest (rev ?parts) version"
    using assms(1) by (simp add: versionSpecificPart_def)
  have sorted: "sorted_wrt (<) (map fst ?parts)"
    by (simp add: collect_parts_fold fold_insert_sorted)
  have keys: "fst ` set ?parts = fst ` set ?segs"
    by (simp add: collect_parts_fold fold_insert_keys)
  have mo: "map_of ?parts = map_of (rev ?segs)"
    by (simp add: collect_parts_fold fold_insert_map_of)
  have sel: "map_of (rev ?segs) ?K = Some ?r"
    using search_highest_rev_sorted[OF sorted, of version] assms(2) unfolding vsp keys mo by simp
  from map_of_rev_last[OF sel] obtain i where i: "i < length ?segs" "?segs ! i = (?K, ?r)"
    and last: "\<forall>j < length ?segs. i < j \<longrightarrow> fst (?segs ! j) \<noteq> ?K" by blast
  have il: "i < length ?ms" using i(1) by (simp add: length_segments)
  from segments_nth[OF il, of script] i(2)
  have k: "toInt (snd (?ms ! i)) = ?K"
    and v: "?r = (if Suc i < length ?ms
             then mid script (fst (?ms ! i)) (int (fst (?ms ! Suc i)) - int (fst (?ms ! i)))
             else drop (fst (?ms ! i)) script)" by simp_all
  have gap: "fst (?ms ! i) + 2 \<le> fst (?ms ! Suc i)" if "Suc i < length ?ms"
    using globalMatch_gap[OF that] .
  have v': "?r = (if Suc i < length ?ms
             then take (fst (?ms ! Suc i) - fst (?ms ! i)) (drop (fst (?ms ! i)) script)
             else drop (fst (?ms ! i)) script)"
    using v gap by (auto simp: mid_def nat_diff_distrib')
  have last': "\<forall>j < length ?ms. i < j \<longrightarrow> toInt (snd (?ms ! j)) \<noteq> ?K"
  proof (intro allI impI)
    fix j assume j: "j < length ?ms" "i < j"
    then have "fst (?segs ! j) \<noteq> ?K" using last by (simp add: length_segments)
    then show "toInt (snd (?ms ! j)) \<noteq> ?K" using segments_nth[OF j(1), of script] by simp
  qed
  from il k last' v' show ?thesis by blast
qed

lemma versionSpecificPart_comment_head:
  assumes "globalMatch 0 script \<noteq> []"
    and "\<exists>k \<in> fst ` set (segments script (globalMatch 0 script)). k \<le> version"
  shows "\<exists>i < length (globalMatch 0 script).
       toInt (snd (globalMatch 0 script ! i))
         = Max {k \<in> fst ` set (segments script (globalMatch 0 script)). k \<le> version}
     \<and> (\<forall>j < length (globalMatch 0 script). i < j \<longrightarrow>
           toInt (snd (globalMatch 0 script ! j))
             \<noteq> Max {k \<in> fst ` set (segments script (globalMatch 0 script)). k \<le> version})
     \<and> match_marker (drop (fst (globalMatch 0 script ! i)) script)
          = Some (snd (globalMatch 0 script ! i))
     \<and> versionSpecificPart script version =
          (if Suc i < length (globalMatch 0 script)
           then take (fst (globalMatch 0 script ! Suc i) - fst (globalMatch 0 script ! i))
                     (drop (fst (globalMatch 0 script ! i)) script)
           else drop (fst (globalMatch 0 script ! i)) script)
     \<and> ((Suc i < length (globalMatch 0 script) \<longrightarrow>
            fst (globalMatch 0 script ! i)
              + length (marker_comment (drop (fst (globalMatch 0 script ! i)) script))
            \<le> fst (globalMatch 0 script ! Suc i))
         \<longrightarrow> prefix (marker_comment (drop (fst (globalMatch 0 script ! i)) script))
                      (versionSpecificPart script version))
     \<and> (Suc i < length (globalMatch 0 script)
          \<and> fst (globalMatch 0 script ! Suc i)
              < fst (globalMatch 0 script ! i)
                + length (marker_comment (drop (fst (globalMatch 0 script ! i)) script))
         \<longrightarrow> versionSpecificPart script version
               = butlast (marker_comment (drop (fst (globalMatch 0 script ! i)) script)))"
proof -
  let ?ms = "globalMatch 0 script"
  let ?r = "versionSpecificPart script version"
  from versionSpecificPart_selected[OF assms] obtain i where il: "i < length ?ms"
    and k: "toInt (snd (?ms ! i))
         = Max {k \<in> fst ` set (segments script ?ms). k \<le> version}"
    and last: "\<forall>j < length ?ms. i < j \<longrightarrow>
           toInt (snd (?ms ! j)) \<noteq> Max {k \<in> fst ` set (segments script ?ms). k \<le> version}"
    and v: "?r = (if Suc i < length ?ms
           then take (fst (?ms ! Suc i) - fst (?ms ! i)) (drop (fst (?ms ! i)) script)
           else drop (fst (?ms ! i)) script)" by blast
  obtain p d where pd: "?ms ! i = (p, d)" by (cases "?ms ! i")
  have mem: "(p, d) \<in> set ?ms" using il pd nth_mem[of i ?ms] by simp
  from globalMatch_mem[OF mem] have mm: "match_marker (drop p script) = Some d" by simp
  from marker_comment_decomp[OF mm] obtain inner r where
    dp: "drop p script = CHR ''/'' # inner @ CHR ''/'' # r"
    and mc: "marker_comment (drop p script) = CHR ''/'' # inner @ ''/''" by blast
  have dpm: "drop p script = marker_comment (drop p script) @ r"
    unfolding mc using dp by simp
  let ?mc = "marker_comment (drop p script)"
  have whole: "prefix ?mc ?r" if "Suc i < length ?ms \<longrightarrow> p + length ?mc \<le> fst (?ms ! Suc i)"
  proof (cases "Suc i < length ?ms")
    case False
    then have "?r = ?mc @ r" using v dpm by (simp add: pd)
    then show ?thesis by simp
  next
    case True
    with that have le: "length ?mc \<le> fst (?ms ! Suc i) - p" by simp
    have "?r = take (fst (?ms ! Suc i) - p) (?mc @ r)"
      using v True dpm by (simp add: pd)
    also have "\<dots> = ?mc @ take (fst (?ms ! Suc i) - p - length ?mc) r"
      using le by simp
    finally show ?thesis by simp
  qed
  have cut: "?r = butlast ?mc" if "Suc i < length ?ms \<and> fst (?ms ! Suc i) < p + length ?mc"
  proof -
    from that have t: "Suc i < length ?ms" and lt: "fst (?ms ! Suc i) < p + length ?mc" by simp_all
    from globalMatch_comment_gap[OF t] have "p + length ?mc \<le> Suc (fst (?ms ! Suc i))"
      by (simp add: pd)
    with lt have n: "fst (?ms ! Suc i) - p = length ?mc - 1" by simp
    have "?r = take (length ?mc - 1) (?mc @ r)"
      using v t dpm n by (simp add: pd)
    also have "\<dots> = butlast ?mc" by (simp add: butlast_conv_take)
    finally show ?thesis .
  qed
  show ?thesis
    apply (rule exI[of _ i])
    using il k last v mm whole cut by (simp add: pd)
qed


section \<open>Properties of path resolution\<close>

lemma map_of_qhash_insert: "map_of (qhash_insert k v m) = (map_of m)(k \<mapsto> v)"
proof
  fix x
  show "map_of (qhash_insert k v m) x = ((map_of m)(k \<mapsto> v)) x"
    by (induction m) (auto simp: qhash_insert_def)
qed

lemma get_set_bunch: "get_bunch path (set_bunch path b w) = b"
  by (simp add: get_bunch_def set_bunch_def map_of_qhash_insert)

lemma executed_append: "executed (xs @ ys) = executed xs @ executed ys"
  by (simp add: executed_def)

lemma dbmsScriptPath_frame:
  assumes "dbmsScriptPath fs con context w = (r, w')"
  shows "g_scripts w' = g_scripts w \<and> js_log w' = js_log w \<and> cb_log w' = cb_log w
       \<and> deleted w' = deleted w \<and> executed (con_log w') = executed (con_log w)
       \<and> set (con_log w) \<subseteq> set (con_log w')"
  using assms
  by (auto simp: dbmsScriptPath_def Let_def executed_def split: option.splits if_splits)

lemma dbmsScriptPath_opens:
  assumes "dbmsScriptPath fs (Some c) context w = (r, w')"
  shows "ConOpen \<in> set (con_log w')"
  using assms
  by (auto simp: dbmsScriptPath_def Let_def split: option.splits if_splits)

lemma dbmsScriptPath_cached:
  assumes "map_of (g_dbms_paths w) (dbmsName c @ dbmsVersion c) = Some base"
  shows "dbmsScriptPath fs (Some c) context w =
           (Inr (base @ contextFolder context),
            w\<lparr>con_log := con_log w @ [ConOpen, ConDbmsName, ConDbmsVersion]\<rparr>)"
  using assms by (simp add: dbmsScriptPath_def Let_def)

lemma dbmsScriptPath_result_cached:
  assumes "dbmsScriptPath fs (Some c) context w = (Inr p, w')"
  shows "\<exists>base. map_of (g_dbms_paths w') (dbmsName c @ dbmsVersion c) = Some base
           \<and> p = base @ contextFolder context"
  using assms
  by (auto simp: dbmsScriptPath_def Let_def map_of_qhash_insert split: option.splits if_splits)

lemma dbmsScriptPath_again:
  assumes "dbmsScriptPath fs (Some c) context w = (Inr p, w')"
  shows "dbmsScriptPath fs' (Some c) context w' =
           (Inr p, w'\<lparr>con_log := con_log w' @ [ConOpen, ConDbmsName, ConDbmsVersion]\<rparr>)"
proof -
  from dbmsScriptPath_result_cached[OF assms] obtain base where
    "map_of (g_dbms_paths w') (dbmsName c @ dbmsVersion c) = Some base" "p = base @ contextFolder context"
    by blast
  then show ?thesis by (simp add: dbmsScriptPath_cached)
qed

lemma find_folder_find:
  "find_folder name ds = (case find (contains_ci name) ds of Some d \<Rightarrow> d @ ''/'' | None \<Rightarrow> [])"
  by (induction ds) auto

lemma find_folder_cases:
  "(\<exists>i < length ds. find_folder name ds = ds ! i @ ''/'' \<and> contains_ci name (ds ! i)
        \<and> (\<forall>j < i. \<not> contains_ci name (ds ! j)))
   \<or> ((\<forall>d \<in> set ds. \<not> contains_ci name d) \<and> find_folder name ds = [])"
proof (cases "find (contains_ci name) ds")
  case None
  then have "\<forall>d \<in> set ds. \<not> contains_ci name d" by (simp add: find_None_iff)
  moreover have "find_folder name ds = []" by (simp add: find_folder_find None)
  ultimately show ?thesis by blast
next
  case (Some d)
  then obtain i where "i < length ds" "contains_ci name (ds ! i)" "d = ds ! i"
    "\<forall>j < i. \<not> contains_ci name (ds ! j)"
    by (auto simp: find_Some_iff)
  then show ?thesis using Some by (auto simp: find_folder_find)
qed


lemma contains_sublist: "contains s d \<longleftrightarrow> sublist d s"
  by (induction s) (simp_all add: sublist_Cons_right)


section \<open>Properties of the registry\<close>

lemma get_bunch_con_log [simp]: "get_bunch path (w\<lparr>con_log := l\<rparr>) = get_bunch path w"
  by (simp add: get_bunch_def)

lemma get_bunch_fs_log [simp]: "get_bunch path (w\<lparr>fs_log := l\<rparr>) = get_bunch path w"
  by (simp add: get_bunch_def)

lemma loaded_bunch_Cons_script:
  "is_script_file f \<Longrightarrow>
   loaded_bunch c context (f # fs) b =
     loaded_bunch c context fs (qhash_insert (baseName f) (loaded_script c context f) b)"
  by (simp add: loaded_bunch_def)

lemma loaded_bunch_Cons_other:
  "\<not> is_script_file f \<Longrightarrow> loaded_bunch c context (f # fs) b = loaded_bunch c context fs b"
  by (simp add: loaded_bunch_def)

lemma load_files_step_other:
  "\<not> is_script_file f \<Longrightarrow>
   load_files c context path files (f # fs) w = load_files c context path files fs w"
  by (simp add: is_script_file_def Let_def)

lemma load_files_step_unreadable:
  "is_script_file f \<Longrightarrow> content f = None \<Longrightarrow>
   load_files c context path files (f # fs) w =
     (Inl (CantOpen (filePath (files ! 0))), w\<lparr>fs_log := fs_log w @ [OpenFile (filePath f)]\<rparr>)"
  by (auto simp: is_script_file_def Let_def)

lemma load_files_step_readable:
  assumes "is_script_file f" "content f = Some text"
  shows "\<exists>w1. load_files c context path files (f # fs) w = load_files c context path files fs w1
            \<and> get_bunch path w1 = qhash_insert (baseName f) (loaded_script c context f) (get_bunch path w)"
proof -
  let ?w2 = "if context = Root then w\<lparr>fs_log := fs_log w @ [OpenFile (filePath f)]\<rparr>
             else w\<lparr>fs_log := fs_log w @ [OpenFile (filePath f)],
                    con_log := con_log w @ [ConComparableVersion]\<rparr>"
  let ?w3 = "set_bunch path (qhash_insert (baseName f)
               (make_script c context (toLower (suffix f)) text) (get_bunch path ?w2)) ?w2"
  have step: "load_files c context path files (f # fs) w = load_files c context path files fs ?w3"
    using assms by (auto simp: is_script_file_def Let_def)
  have "get_bunch path ?w3 = qhash_insert (baseName f) (loaded_script c context f) (get_bunch path w)"
    using assms by (simp add: get_set_bunch loaded_script_def)
  with step show ?thesis by blast
qed

declare load_files.simps(2) [simp del]

lemma load_files_frame:
  assumes "load_files c context path files fs w = (r, w')"
  shows "g_dbms_paths w' = g_dbms_paths w \<and> js_log w' = js_log w \<and> cb_log w' = cb_log w
       \<and> deleted w' = deleted w \<and> executed (con_log w') = executed (con_log w)
       \<and> set (con_log w) \<subseteq> set (con_log w')"
  using assms
proof (induction fs arbitrary: w)
  case Nil
  then show ?case by simp
next
  case (Cons f fs)
  show ?case
  proof (cases "is_script_file f")
    case False
    with Cons show ?thesis by (simp add: load_files_step_other)
  next
    case True
    show ?thesis
    proof (cases "content f")
      case None
      with True Cons.prems show ?thesis
        by (auto simp: load_files_step_unreadable)
    next
      case (Some tx)
      let ?w2 = "if context = Root then w\<lparr>fs_log := fs_log w @ [OpenFile (filePath f)]\<rparr>
                 else w\<lparr>fs_log := fs_log w @ [OpenFile (filePath f)],
                        con_log := con_log w @ [ConComparableVersion]\<rparr>"
      let ?w3 = "set_bunch path (qhash_insert (baseName f)
                   (make_script c context (toLower (suffix f)) tx) (get_bunch path ?w2)) ?w2"
      have step: "load_files c context path files (f # fs) w = load_files c context path files fs ?w3"
        using True Some by (auto simp: is_script_file_def Let_def load_files.simps(2))
      have "g_dbms_paths ?w3 = g_dbms_paths w \<and> js_log ?w3 = js_log w \<and> cb_log ?w3 = cb_log w
          \<and> deleted ?w3 = deleted w \<and> executed (con_log ?w3) = executed (con_log w)
          \<and> set (con_log w) \<subseteq> set (con_log ?w3)"
        by (auto simp: set_bunch_def executed_def)
      with Cons.IH[of ?w3] Cons.prems step show ?thesis by auto
    qed
  qed
qed

lemma load_files_readable:
  assumes "\<forall>f \<in> set fs. is_script_file f \<longrightarrow> content f \<noteq> None"
  shows "\<exists>w'. load_files c context path files fs w = (Inr (), w')
            \<and> get_bunch path w' = loaded_bunch c context fs (get_bunch path w)"
  using assms
proof (induction fs arbitrary: w)
  case Nil
  then show ?case by (simp add: loaded_bunch_def)
next
  case (Cons f fs)
  show ?case
  proof (cases "is_script_file f")
    case False
    with Cons show ?thesis
      by (simp add: load_files_step_other loaded_bunch_Cons_other)
  next
    case True
    with Cons.prems obtain tx where tx: "content f = Some tx" by auto
    from load_files_step_readable[OF True tx, of c "context" path files fs w]
    obtain w1 where w1: "load_files c context path files (f # fs) w = load_files c context path files fs w1"
      "get_bunch path w1 = qhash_insert (baseName f) (loaded_script c context f) (get_bunch path w)"
      by blast
    from Cons.IH[of w1] Cons.prems obtain w' where
      "load_files c context path files fs w1 = (Inr (), w')"
      "get_bunch path w' = loaded_bunch c context fs (get_bunch path w1)" by auto
    with w1 True show ?thesis by (simp add: loaded_bunch_Cons_script)
  qed
qed

lemma load_files_unreadable:
  assumes "\<forall>g \<in> set pre. is_script_file g \<longrightarrow> content g \<noteq> None"
    and "is_script_file f" and "content f = None"
  shows "\<exists>w'. load_files c context path files (pre @ f # post) w = (Inl (CantOpen (filePath (files ! 0))), w')
            \<and> get_bunch path w' = loaded_bunch c context pre (get_bunch path w)"
  using assms(1)
proof (induction pre arbitrary: w)
  case Nil
  then show ?case
    using assms(2,3) by (simp add: load_files_step_unreadable loaded_bunch_def)
next
  case (Cons g pre)
  show ?case
  proof (cases "is_script_file g")
    case False
    with Cons show ?thesis
      by (simp add: load_files_step_other loaded_bunch_Cons_other)
  next
    case True
    with Cons.prems obtain tx where tx: "content g = Some tx" by auto
    from load_files_step_readable[OF True tx, of c "context" path files "pre @ f # post" w]
    obtain w1 where w1: "load_files c context path files (g # pre @ f # post) w
          = load_files c context path files (pre @ f # post) w1"
      "get_bunch path w1 = qhash_insert (baseName g) (loaded_script c context g) (get_bunch path w)"
      by blast
    from Cons.IH[of w1] Cons.prems obtain w' where
      "load_files c context path files (pre @ f # post) w1 = (Inl (CantOpen (filePath (files ! 0))), w')"
      "get_bunch path w' = loaded_bunch c context pre (get_bunch path w1)" by auto
    with w1 True show ?thesis by (simp add: loaded_bunch_Cons_script)
  qed
qed

lemma refresh_unfold:
  assumes "dbmsScriptPath fs (Some c) context w = (Inr path, w1)"
  shows "refresh fs (Some c) context w =
           load_files c context path (entryInfoList fs path) (entryInfoList fs path)
             ((set_bunch path [] w1)\<lparr>fs_log := fs_log (set_bunch path [] w1) @ [EntryInfoList path]\<rparr>)"
  using assms by (simp add: refresh_def Let_def)

lemma refresh_frame:
  assumes "refresh fs con context w = (r, w')"
  shows "js_log w' = js_log w \<and> cb_log w' = cb_log w
       \<and> deleted w' = deleted w \<and> executed (con_log w') = executed (con_log w)
       \<and> set (con_log w) \<subseteq> set (con_log w')"
proof (cases con)
  case None
  with assms show ?thesis by (simp add: refresh_def)
next
  case (Some c)
  obtain r1 w1 where p: "dbmsScriptPath fs (Some c) context w = (r1, w1)"
    by (cases "dbmsScriptPath fs (Some c) context w")
  note f1 = dbmsScriptPath_frame[OF p]
  show ?thesis
  proof (cases r1)
    case (Inl e)
    with assms Some p f1 show ?thesis by (simp add: refresh_def)
  next
    case (Inr path)
    let ?w3 = "(set_bunch path [] w1)\<lparr>fs_log := fs_log (set_bunch path [] w1) @ [EntryInfoList path]\<rparr>"
    from assms Some p Inr have
      "load_files c context path (entryInfoList fs path) (entryInfoList fs path) ?w3 = (r, w')"
      by (simp add: refresh_unfold)
    from load_files_frame[OF this] f1 show ?thesis by (auto simp: set_bunch_def)
  qed
qed

lemma getScript_frame:
  assumes "getScript fs con context objectType w = (r, w')"
  shows "js_log w' = js_log w \<and> cb_log w' = cb_log w
       \<and> deleted w' = deleted w \<and> executed (con_log w') = executed (con_log w)
       \<and> set (con_log w) \<subseteq> set (con_log w')"
proof -
  obtain r1 w1 where p: "dbmsScriptPath fs con context w = (r1, w1)"
    by (cases "dbmsScriptPath fs con context w")
  note f1 = dbmsScriptPath_frame[OF p]
  show ?thesis
  proof (cases r1)
    case (Inl e)
    with assms p f1 show ?thesis by (simp add: getScript_def)
  next
    case (Inr path)
    show ?thesis
    proof (cases "get_bunch path w1 = []")
      case False
      with assms p Inr f1 show ?thesis by (simp add: getScript_def)
    next
      case True
      obtain r2 w2 where q: "refresh fs con context w1 = (r2, w2)"
        by (cases "refresh fs con context w1")
      note f2 = refresh_frame[OF q]
      from assms p Inr True q have "w' = w2"
        by (cases r2) (simp_all add: getScript_def)
      with f1 f2 show ?thesis by auto
    qed
  qed
qed

lemma getScript_opens:
  assumes "getScript fs (Some c) context objectType w = (r, w')"
  shows "ConOpen \<in> set (con_log w')"
proof -
  obtain r1 w1 where p: "dbmsScriptPath fs (Some c) context w = (r1, w1)"
    by (cases "dbmsScriptPath fs (Some c) context w")
  note o1 = dbmsScriptPath_opens[OF p]
  show ?thesis
  proof (cases r1)
    case (Inl e)
    with assms p o1 show ?thesis by (simp add: getScript_def)
  next
    case (Inr path)
    show ?thesis
    proof (cases "get_bunch path w1 = []")
      case False
      with assms p Inr o1 show ?thesis by (simp add: getScript_def)
    next
      case True
      obtain r2 w2 where q: "refresh fs (Some c) context w1 = (r2, w2)"
        by (cases "refresh fs (Some c) context w1")
      from assms p Inr True q have w': "w' = w2"
        by (cases r2) (simp_all add: getScript_def)
      from refresh_frame[OF q] o1 have "ConOpen \<in> set (con_log w2)" by auto
      with w' show ?thesis by simp
    qed
  qed
qed

lemma map_of_loaded_bunch_None:
  assumes "map_of b k = None"
    and "\<forall>f \<in> set fs. is_script_file f \<longrightarrow> baseName f \<noteq> k"
  shows "map_of (loaded_bunch c context fs b) k = None"
  using assms
proof (induction fs arbitrary: b)
  case Nil
  then show ?case by (simp add: loaded_bunch_def)
next
  case (Cons f fs)
  show ?case
  proof (cases "is_script_file f")
    case False
    with Cons show ?thesis by (simp add: loaded_bunch_Cons_other)
  next
    case True
    with Cons.prems have "map_of (qhash_insert (baseName f) (loaded_script c context f) b) k = None"
      by (auto simp: map_of_qhash_insert)
    with Cons.IH[of "qhash_insert (baseName f) (loaded_script c context f) b"] Cons.prems True
    show ?thesis by (simp add: loaded_bunch_Cons_script)
  qed
qed

lemma destroy_new_conductor: "destroy new_conductor w = w"
  by (simp add: destroy_def clear_def new_conductor_def)

lemma getScript_missing:
  assumes path: "dbmsScriptPath fs (Some c) context w = (Inr path, w1)"
    and nokey: "objectType \<notin> fst ` set (get_bunch path w1)"
    and files: "\<forall>f \<in> set (entryInfoList fs path).
                  is_script_file f \<longrightarrow> content f \<noteq> None \<and> baseName f \<noteq> objectType"
  shows "fst (getScript fs (Some c) context objectType w) = Inr None"
proof (cases "get_bunch path w1 = []")
  case False
  from nokey have "map_of (get_bunch path w1) objectType = None"
    by (simp add: map_of_eq_None_iff)
  with False path show ?thesis by (simp add: getScript_def)
next
  case True
  let ?files = "entryInfoList fs path"
  let ?w1' = "w1\<lparr>con_log := con_log w1 @ [ConOpen, ConDbmsName, ConDbmsVersion]\<rparr>"
  let ?w3 = "(set_bunch path [] ?w1')\<lparr>fs_log := fs_log (set_bunch path [] ?w1') @ [EntryInfoList path]\<rparr>"
  have again: "dbmsScriptPath fs (Some c) context w1 = (Inr path, ?w1')"
    by (rule dbmsScriptPath_again[OF path])
  have r: "refresh fs (Some c) context w1 = load_files c context path ?files ?files ?w3"
    by (rule refresh_unfold[OF again])
  from files have readable: "\<forall>f \<in> set ?files. is_script_file f \<longrightarrow> content f \<noteq> None" by blast
  from load_files_readable[OF readable, of c "context" path ?files ?w3]
  obtain w2 where w2: "load_files c context path ?files ?files ?w3 = (Inr (), w2)"
    "get_bunch path w2 = loaded_bunch c context ?files (get_bunch path ?w3)" by blast
  have "get_bunch path ?w3 = []" by (simp add: get_set_bunch)
  with w2 have b2: "get_bunch path w2 = loaded_bunch c context ?files []" by simp
  have "map_of (get_bunch path w2) objectType = None"
    unfolding b2 by (rule map_of_loaded_bunch_None) (use files in auto)
  with True path r w2 show ?thesis by (simp add: getScript_def)
qed

lemma run_calls:
  "resultsets (fst (foldl (\<lambda>ew call. run_call call ew) (env, w) calls))
      = resultsets env @ returned_tables calls
   \<and> scripts (fst (foldl (\<lambda>ew call. run_call call ew) (env, w) calls))
      = scripts env @ returned_scripts calls
   \<and> deleted (snd (foldl (\<lambda>ew call. run_call call ew) (env, w) calls)) = deleted w"
proof (induction calls arbitrary: env w)
  case Nil
  then show ?case by (simp add: returned_tables_def returned_scripts_def)
next
  case (Cons call calls)
  show ?case
    by (cases call)
       (simp_all add: Cons.IH returned_tables_def returned_scripts_def appendTable_def appendScript_def)
qed


text \<open>A look-up answered from a bunch that is already filled, and the state that a failed
  \<open>refresh\<close> leaves behind.\<close>

lemma getScript_cached_bunch:
  assumes "map_of (g_dbms_paths w) (dbmsName c @ dbmsVersion c) = Some base"
    and "get_bunch (base @ contextFolder context) w \<noteq> []"
  shows "getScript fs (Some c) context objectType w =
           (Inr (map_of (get_bunch (base @ contextFolder context) w) objectType),
            w\<lparr>con_log := con_log w @ [ConOpen, ConDbmsName, ConDbmsVersion]\<rparr>)"
  using assms by (simp add: getScript_def dbmsScriptPath_cached)

lemma refresh_unreadable_state:
  assumes p: "dbmsScriptPath fs (Some c) context w = (Inr path, w1)"
    and "entryInfoList fs path = pre @ f # post"
    and "\<forall>g \<in> set pre. is_script_file g \<longrightarrow> content g \<noteq> None"
    and "is_script_file f" and "content f = None"
  shows "\<exists>w'. refresh fs (Some c) context w = (Inl (CantOpen (filePath ((pre @ f # post) ! 0))), w')
            \<and> get_bunch path w' = loaded_bunch c context pre []
            \<and> g_dbms_paths w' = g_dbms_paths w1"
proof -
  let ?w3 = "(set_bunch path [] w1)\<lparr>fs_log := fs_log (set_bunch path [] w1) @ [EntryInfoList path]\<rparr>"
  have r: "refresh fs (Some c) context w = load_files c context path (pre @ f # post) (pre @ f # post) ?w3"
    using refresh_unfold[OF p] assms(2) by simp
  from load_files_unreadable[OF assms(3,4,5), of c "context" path "pre @ f # post" post ?w3]
  obtain w' where w': "load_files c context path (pre @ f # post) (pre @ f # post) ?w3
        = (Inl (CantOpen (filePath ((pre @ f # post) ! 0))), w')"
    "get_bunch path w' = loaded_bunch c context pre (get_bunch path ?w3)" by blast
  have e: "get_bunch path ?w3 = []" by (simp add: get_set_bunch)
  from load_files_frame[OF w'(1)] have "g_dbms_paths w' = g_dbms_paths w1"
    by (simp add: set_bunch_def)
  with r w' e show ?thesis by simp
qed


section \<open>Properties of the classification of result sets\<close>

lemma script_not_html: "is_script_result t \<Longrightarrow> \<not> is_html_result t"
  by (simp add: is_script_result_def is_html_result_def)

lemma classify_all:
  "classify (length rs) rs (env, w) =
     (env\<lparr>resultsets := resultsets env @ rev (filter is_table_result rs),
          scripts := scripts env @ rev (map value00 (filter is_script_result rs)),
          html := html env @ rev (map value00 (filter is_html_result rs))\<rparr>,
      w\<lparr>deleted := deleted w @ rev (map addr (filter (\<lambda>t. \<not> is_table_result t) rs))\<rparr>)"
proof (induction rs arbitrary: env w rule: rev_induct)
  case Nil
  then show ?case by simp
next
  case (snoc t rs)
  have step: "classify (length (rs @ [t])) (rs @ [t]) (env, w) =
      (if is_script_result t
       then classify (length rs) rs (appendScript (value00 t) env, w\<lparr>deleted := deleted w @ [addr t]\<rparr>)
       else if is_html_result t
       then classify (length rs) rs (appendHtml (value00 t) env, w\<lparr>deleted := deleted w @ [addr t]\<rparr>)
       else classify (length rs) rs (appendTable t env, w))"
    by (simp add: Let_def is_script_result_def is_html_result_def is_1x1_def)
  show ?case
    unfolding step
    using script_not_html[of t]
    by (auto simp: snoc.IH is_table_result_def appendScript_def appendHtml_def appendTable_def)
qed

lemma classify_new:
  "classify (length rs) rs (new_conductor, w) =
     (\<lparr>resultsets = rev (filter is_table_result rs),
       scripts = rev (map value00 (filter is_script_result rs)),
       html = rev (map value00 (filter is_html_result rs))\<rparr>,
      w\<lparr>deleted := deleted w @ rev (map addr (filter (\<lambda>t. \<not> is_table_result t) rs))\<rparr>)"
  by (simp add: classify_all new_conductor_def)

lemma execute_sql:
  assumes "getScript fs (Some c) context objectType w = (Inr (Some s), w1)"
    and "stype s = SQL"
  shows "execute fs js (Some c) context objectType envCallback w =
     (Inr (Some \<lparr>resultsets = rev (filter is_table_result
                                  (exec_result c (fst (expand_macros envCallback (body s))))),
                 scripts = rev (map value00 (filter is_script_result
                                  (exec_result c (fst (expand_macros envCallback (body s)))))),
                 html = rev (map value00 (filter is_html_result
                                  (exec_result c (fst (expand_macros envCallback (body s))))))\<rparr>),
      w1\<lparr>cb_log := cb_log w1 @ snd (expand_macros envCallback (body s)),
         con_log := con_log w1 @ [ConExecute (fst (expand_macros envCallback (body s)))],
         deleted := deleted w1 @ rev (map addr (filter (\<lambda>t. \<not> is_table_result t)
                                  (exec_result c (fst (expand_macros envCallback (body s))))))\<rparr>)"
  using assms
  by (simp add: execute_def Let_def classify_new split: prod.splits)


section \<open>Properties of macro expansion\<close>

lemma remdups_append_mem: "m \<in> set ys \<Longrightarrow> remdups (xs @ m # ys) = remdups (xs @ ys)"
  by (induction xs) auto

lemma collect_macros_remdups:
  "distinct acc \<Longrightarrow> collect_macros ms acc = rev (remdups (rev (acc @ ms)))"
proof (induction ms arbitrary: acc)
  case Nil
  then show ?case by (simp add: distinct_remdups_id)
next
  case (Cons m ms)
  show ?case
  proof (cases "m \<in> set acc")
    case True
    then have "remdups (rev ms @ m # rev acc) = remdups (rev ms @ rev acc)"
      by (simp add: remdups_append_mem)
    with True Cons show ?thesis by simp
  next
    case False
    with Cons.prems have "distinct (acc @ [m])" by simp
    from Cons.IH[OF this] False show ?thesis by simp
  qed
qed

lemma replace_macros_fold:
  "replace_macros envCallback macros (query, calls) =
     (foldl (\<lambda>q m. replace q (macro_token m) (substituted envCallback m)) query macros,
      calls @ macros)"
  by (induction macros arbitrary: query calls)
     (simp_all add: Let_def macro_token_def substituted_def)

declare replace.simps(2) [simp del]

lemma replace_skip:
  assumes "\<not> prefix before (c # cs)"
  shows "replace (c # cs) before after = c # replace cs before after"
  using assms by (simp add: replace.simps(2))

lemma replace_hit:
  assumes "before \<noteq> []"
  shows "replace (before @ rest) before after = after @ replace rest before after"
proof -
  from assms obtain c cs where b: "before = c # cs" by (cases before) auto
  have "replace ((c # cs) @ rest) (c # cs) after
          = after @ replace (drop (length (c # cs)) ((c # cs) @ rest)) (c # cs) after"
    by (simp add: replace.simps(2))
  then show ?thesis by (simp add: b)
qed

lemma replace_no_occurrence:
  "\<not> sublist before s \<Longrightarrow> replace s before after = s"
proof (induction s)
  case Nil
  then show ?case by simp
next
  case (Cons c cs)
  from Cons.prems have np: "\<not> prefix before (c # cs)" and ns: "\<not> sublist before cs"
    by (simp_all add: sublist_Cons_right)
  from Cons.IH[OF ns] replace_skip[OF np, of after]
  show ?case by simp
qed

lemma replace_first_occurrence:
  assumes "before \<noteq> []" and "\<not> sublist before (a @ butlast before)"
  shows "replace (a @ before @ rest) before after = a @ after @ replace rest before after"
  using assms(2)
proof (induction a)
  case Nil
  then show ?case by (simp add: replace_hit[OF assms(1)])
next
  case (Cons x a)
  have np: "\<not> prefix before (x # a @ before @ rest)"
  proof
    assume "prefix before (x # a @ before @ rest)"
    then obtain zs where zs: "x # a @ before @ rest = before @ zs" by (auto simp: prefix_def)
    have bl: "butlast before @ [last before] = before" using assms(1) by simp
    have "((x # a) @ butlast before) @ (last before # rest)
            = (x # a) @ (butlast before @ [last before]) @ rest" by simp
    also have "\<dots> = (x # a) @ before @ rest" by (simp only: bl)
    finally have split: "(x # a) @ before @ rest = ((x # a) @ butlast before) @ (last before # rest)"
      by simp
    have le: "length before \<le> length ((x # a) @ butlast before)"
      using assms(1) by (simp add: Suc_leI)
    have "take (length before) ((x # a) @ before @ rest) = before" using zs by simp
    then have "take (length before) (((x # a) @ butlast before) @ (last before # rest)) = before"
      by (simp only: split)
    then have "take (length before) ((x # a) @ butlast before) = before"
      using le by (simp only: take_append) simp
    then have "prefix before ((x # a) @ butlast before)"
      using take_is_prefix[of "length before" "(x # a) @ butlast before"] by simp
    then have "sublist before ((x # a) @ butlast before)" by (rule prefix_imp_sublist)
    with Cons.prems show False by simp
  qed
  from Cons.prems have "\<not> sublist before (a @ butlast before)"
    by (simp add: sublist_Cons_right)
  from Cons.IH[OF this] replace_skip[OF np, of after]
  show ?case by simp
qed

lemma replace_pieces:
  assumes "before \<noteq> []"
    and "\<forall>a \<in> set as. \<not> sublist before (a @ butlast before)"
    and "\<not> sublist before b"
  shows "replace (concat (map (\<lambda>a. a @ before) as) @ b) before after
           = concat (map (\<lambda>a. a @ after) as) @ b"
  using assms(2)
proof (induction as)
  case Nil
  then show ?case by (simp add: replace_no_occurrence[OF assms(3)])
next
  case (Cons a as)
  then have "\<not> sublist before (a @ butlast before)" by simp
  from replace_first_occurrence[OF assms(1) this] Cons show ?case by simp
qed

lemma not_word_dollar: "\<not> is_word CHR ''$''"
  by (simp add: is_word_def)

lemma not_word_dot: "\<not> is_word CHR ''.''"
  by (simp add: is_word_def)

lemma valid_name_decomp:
  assumes "valid_name n"
  shows "\<exists>w1 w2. n = w1 @ CHR ''.'' # w2 \<and> w1 \<noteq> [] \<and> w2 \<noteq> []
           \<and> (\<forall>c \<in> set w1. is_word c) \<and> (\<forall>c \<in> set w2. is_word c)"
proof -
  from assms obtain w2 where d: "dropWhile is_word n = CHR ''.'' # w2" and w2: "w2 \<noteq> []" "list_all is_word w2"
    and w1: "takeWhile is_word n \<noteq> []"
    by (auto simp: valid_name_def split: list.splits)
  have "n = takeWhile is_word n @ dropWhile is_word n" by simp
  then have n: "n = takeWhile is_word n @ CHR ''.'' # w2" by (simp only: d)
  have "\<forall>c \<in> set (takeWhile is_word n). is_word c" by (auto dest: set_takeWhileD)
  with n w1 w2 show ?thesis by (auto simp: list_all_iff)
qed

lemma valid_name_chars:
  assumes "valid_name n"
  shows "CHR ''$'' \<notin> set n" and "\<forall>c \<in> set n. is_word c \<or> c = CHR ''.''"
proof -
  from valid_name_decomp[OF assms] obtain w1 w2 where
    n: "n = w1 @ CHR ''.'' # w2" and w: "\<forall>c \<in> set w1. is_word c" "\<forall>c \<in> set w2. is_word c" by blast
  show "\<forall>c \<in> set n. is_word c \<or> c = CHR ''.''" using w by (auto simp: n)
  then show "CHR ''$'' \<notin> set n" using not_word_dollar by auto
qed

lemma takeWhile_all: "\<forall>c \<in> set w. P c \<Longrightarrow> \<not> P x \<Longrightarrow> takeWhile P (w @ x # r) = w"
  by (induction w) auto

lemma dropWhile_all: "\<forall>c \<in> set w. P c \<Longrightarrow> \<not> P x \<Longrightarrow> dropWhile P (w @ x # r) = x # r"
  by (induction w) auto

lemma match_macro_token:
  assumes "valid_name n"
  shows "match_macro (macro_token n @ rest) = Some n"
proof -
  from valid_name_decomp[OF assms] obtain w1 w2 where
    n: "n = w1 @ CHR ''.'' # w2" and ne: "w1 \<noteq> []" "w2 \<noteq> []"
    and w: "\<forall>c \<in> set w1. is_word c" "\<forall>c \<in> set w2. is_word c" by blast
  have t1: "takeWhile is_word (w1 @ CHR ''.'' # w2 @ CHR ''$'' # rest) = w1"
    by (rule takeWhile_all[OF w(1) not_word_dot])
  have d1: "dropWhile is_word (w1 @ CHR ''.'' # w2 @ CHR ''$'' # rest) = CHR ''.'' # w2 @ CHR ''$'' # rest"
    by (rule dropWhile_all[OF w(1) not_word_dot])
  have t2: "takeWhile is_word (w2 @ CHR ''$'' # rest) = w2"
    by (rule takeWhile_all[OF w(2) not_word_dollar])
  have d2: "dropWhile is_word (w2 @ CHR ''$'' # rest) = CHR ''$'' # rest"
    by (rule dropWhile_all[OF w(2) not_word_dollar])
  have "macro_token n @ rest = CHR ''$'' # w1 @ CHR ''.'' # w2 @ CHR ''$'' # rest"
    by (simp add: macro_token_def n)
  then show ?thesis
    using ne by (simp add: match_macro_def t1 d1 t2 d2 n)
qed

lemma match_macro_other: "c \<noteq> CHR ''$'' \<Longrightarrow> match_macro (c # cs) = None"
  by (simp add: match_macro_def)

lemma macro_token_Cons: "macro_token n = CHR ''$'' # n @ ''$''"
  by (simp add: macro_token_def)

lemma length_macro_token: "length (macro_token n) = Suc (Suc (length n))"
  by (simp add: macro_token_def)

lemma globalMatch_macro_skip:
  "CHR ''$'' \<notin> set a \<Longrightarrow> globalMatch_macro (a @ rest) = globalMatch_macro rest"
  by (induction a) (auto simp: match_macro_other)

lemma globalMatch_macro_token:
  assumes "valid_name n"
  shows "globalMatch_macro (macro_token n @ rest) = n # globalMatch_macro rest"
proof -
  have "globalMatch_macro (CHR ''$'' # n @ CHR ''$'' # rest)
          = n # globalMatch_macro (drop (Suc (length n)) (n @ CHR ''$'' # rest))"
    using match_macro_token[OF assms, of rest] by (simp add: macro_token_def)
  then show ?thesis by (simp add: macro_token_def)
qed

lemma globalMatch_tokens_text:
  assumes "CHR ''$'' \<notin> set p0"
    and "\<forall>np \<in> set nps. valid_name (fst np) \<and> CHR ''$'' \<notin> set (snd np)"
  shows "globalMatch_macro (tokens_text p0 nps) = map fst nps"
  using assms
proof (induction nps arbitrary: p0)
  case Nil
  from globalMatch_macro_skip[OF Nil(1), of "[]"] show ?case by (simp add: tokens_text_def)
next
  case (Cons np nps)
  have t: "tokens_text p0 (np # nps) = p0 @ macro_token (fst np) @ tokens_text (snd np) nps"
    by (simp add: tokens_text_def)
  from Cons.prems have v: "valid_name (fst np)" and s: "CHR ''$'' \<notin> set (snd np)"
    and r: "\<forall>np \<in> set nps. valid_name (fst np) \<and> CHR ''$'' \<notin> set (snd np)" by simp_all
  show ?case
    unfolding t
    by (simp add: globalMatch_macro_skip[OF Cons.prems(1)] globalMatch_macro_token[OF v]
        Cons.IH[OF s r])
qed

lemma substitute_macros_skip:
  "CHR ''$'' \<notin> set a \<Longrightarrow> substitute_macros cb (a @ rest) = a @ substitute_macros cb rest"
  by (induction a) (auto simp: match_macro_other)

lemma substitute_macros_token:
  assumes "valid_name n"
  shows "substitute_macros cb (macro_token n @ rest) = substituted cb n @ substitute_macros cb rest"
proof -
  have "substitute_macros cb (CHR ''$'' # n @ CHR ''$'' # rest)
          = substituted cb n @ substitute_macros cb (drop (Suc (length n)) (n @ CHR ''$'' # rest))"
    using match_macro_token[OF assms, of rest] by (simp add: macro_token_def)
  then show ?thesis by (simp add: macro_token_def)
qed

lemma substitute_tokens_text:
  assumes "CHR ''$'' \<notin> set p0"
    and "\<forall>np \<in> set nps. valid_name (fst np) \<and> CHR ''$'' \<notin> set (snd np)"
  shows "substitute_macros cb (tokens_text p0 nps) = substituted_text cb p0 nps"
  using assms
proof (induction nps arbitrary: p0)
  case Nil
  from substitute_macros_skip[OF Nil(1), of cb "[]"] show ?case
    by (simp add: tokens_text_def substituted_text_def)
next
  case (Cons np nps)
  have t: "tokens_text p0 (np # nps) = p0 @ macro_token (fst np) @ tokens_text (snd np) nps"
    by (simp add: tokens_text_def)
  have u: "substituted_text cb p0 (np # nps) = p0 @ substituted cb (fst np) @ substituted_text cb (snd np) nps"
    by (simp add: substituted_text_def)
  from Cons.prems have v: "valid_name (fst np)" and s: "CHR ''$'' \<notin> set (snd np)"
    and r: "\<forall>np \<in> set nps. valid_name (fst np) \<and> CHR ''$'' \<notin> set (snd np)" by simp_all
  show ?case
    unfolding t u
    by (simp add: substitute_macros_skip[OF Cons.prems(1)] substitute_macros_token[OF v]
        Cons.IH[OF s r])
qed

lemma replace_skip_piece:
  "CHR ''$'' \<notin> set a \<Longrightarrow>
   replace (a @ rest) (macro_token m) v = a @ replace rest (macro_token m) v"
proof (induction a)
  case Nil
  then show ?case by simp
next
  case (Cons x a)
  then have "\<not> prefix (macro_token m) (x # a @ rest)"
    by (simp add: macro_token_Cons)
  from replace_skip[OF this, of v] Cons show ?case by simp
qed

lemma prefix_name_dollar:
  "CHR ''$'' \<notin> set m \<Longrightarrow> CHR ''$'' \<notin> set n \<Longrightarrow>
   prefix (m @ ''$'') (n @ CHR ''$'' # rest) \<Longrightarrow> m = n"
proof (induction m arbitrary: n)
  case Nil
  then show ?case by (cases n) auto
next
  case (Cons x m)
  then show ?case by (cases n) auto
qed

lemma no_prefix_after_piece:
  "CHR ''$'' \<notin> set p \<Longrightarrow> (\<exists>c \<in> set p. c \<notin> set m) \<or> rest = [] \<Longrightarrow>
   \<not> prefix (m @ ''$'') (p @ rest)"
proof (induction m arbitrary: p)
  case Nil
  then show ?case by (cases p) auto
next
  case (Cons x m)
  show ?case
  proof (cases p)
    case Nil
    with Cons.prems show ?thesis by auto
  next
    case (Cons y p')
    show ?thesis
    proof
      assume pre: "prefix ((x # m) @ ''$'') (p @ rest)"
      with Cons have xy: "x = y" and pre': "prefix (m @ ''$'') (p' @ rest)" by simp_all
      from Cons.prems(1) Cons have d: "CHR ''$'' \<notin> set p'" by simp
      from Cons.prems(2) Cons xy have "(\<exists>c \<in> set p'. c \<notin> set m) \<or> rest = []" by auto
      from Cons.IH[OF d this] pre' show False by simp
    qed
  qed
qed

lemma replace_other_token:
  assumes "n \<noteq> m" and "CHR ''$'' \<notin> set n" and "CHR ''$'' \<notin> set m"
    and "\<not> prefix (m @ ''$'') rest"
  shows "replace (macro_token n @ rest) (macro_token m) v
           = macro_token n @ replace rest (macro_token m) v"
proof -
  have np1: "\<not> prefix (macro_token m) (CHR ''$'' # n @ CHR ''$'' # rest)"
    using prefix_name_dollar[OF assms(3,2), of rest] assms(1)
    by (auto simp: macro_token_Cons)
  have np2: "\<not> prefix (macro_token m) (CHR ''$'' # rest)"
    using assms(4) by (simp add: macro_token_Cons)
  have "replace (macro_token n @ rest) (macro_token m) v
          = replace (CHR ''$'' # n @ CHR ''$'' # rest) (macro_token m) v"
    by (simp add: macro_token_Cons)
  also have "\<dots> = CHR ''$'' # replace (n @ CHR ''$'' # rest) (macro_token m) v"
    by (rule replace_skip[OF np1])
  also have "\<dots> = CHR ''$'' # n @ replace (CHR ''$'' # rest) (macro_token m) v"
    by (simp add: replace_skip_piece[OF assms(2)])
  also have "\<dots> = CHR ''$'' # n @ CHR ''$'' # replace rest (macro_token m) v"
    by (simp add: replace_skip[OF np2])
  finally show ?thesis by (simp add: macro_token_Cons)
qed

lemma partly_substituted_Nil: "partly_substituted cb S p0 [] = p0"
  by (simp add: partly_substituted_def)

lemma partly_substituted_Cons:
  "partly_substituted cb S p0 (np # nps) =
     p0 @ (if fst np \<in> S then substituted cb (fst np) else macro_token (fst np))
        @ partly_substituted cb S (snd np) nps"
  by (simp add: partly_substituted_def)

lemma has_separator_char:
  assumes "has_separator p" and "\<forall>c \<in> set m. is_word c \<or> c = CHR ''.''"
  shows "\<exists>c \<in> set p. c \<notin> set m"
  using assms by (auto simp: has_separator_def list_ex_iff)

lemma partly_substituted_head:
  "\<exists>r. partly_substituted cb S p nps = p @ r \<and> (nps = [] \<longrightarrow> r = [])"
  by (cases nps) (simp_all add: partly_substituted_def)

lemma replace_partly_substituted:
  assumes m: "valid_name m"
    and vm: "CHR ''$'' \<notin> set (substituted cb m)"
    and vS: "\<forall>n \<in> S. CHR ''$'' \<notin> set (substituted cb n)"
  shows "CHR ''$'' \<notin> set p0 \<Longrightarrow>
         \<forall>np \<in> set nps. valid_name (fst np) \<and> CHR ''$'' \<notin> set (snd np) \<Longrightarrow>
         separated nps \<Longrightarrow>
         replace (partly_substituted cb S p0 nps) (macro_token m) (substituted cb m)
           = partly_substituted cb (insert m S) p0 nps"
proof (induction nps arbitrary: p0)
  case Nil
  from replace_skip_piece[OF Nil(1), of "[]" m "substituted cb m"]
  show ?case by (simp add: partly_substituted_Nil)
next
  case (Cons np nps)
  obtain n p where np: "np = (n, p)" by (cases np)
  from Cons.prems(2) have vn: "valid_name n" and dp: "CHR ''$'' \<notin> set p"
    and rest: "\<forall>np \<in> set nps. valid_name (fst np) \<and> CHR ''$'' \<notin> set (snd np)"
    by (simp_all add: np)
  from Cons.prems(3) have sep: "separated nps" and hs: "nps \<noteq> [] \<longrightarrow> has_separator p"
    by (cases nps; simp add: np)+
  note dm = valid_name_chars(1)[OF m] and dn = valid_name_chars(1)[OF vn]
  note ih = Cons.IH[OF _ rest sep]
  have mt: "macro_token m \<noteq> []" by (simp add: macro_token_Cons)
  show ?case
  proof (cases "n \<in> S")
    case True
    with vS have dv: "CHR ''$'' \<notin> set (substituted cb n)" by blast
    have d: "CHR ''$'' \<notin> set (p0 @ substituted cb n)" using Cons.prems(1) dv by simp
    have "partly_substituted cb S p0 (np # nps)
            = (p0 @ substituted cb n) @ partly_substituted cb S p nps"
      using True by (simp add: partly_substituted_Cons np)
    then have "replace (partly_substituted cb S p0 (np # nps)) (macro_token m) (substituted cb m)
            = (p0 @ substituted cb n) @ replace (partly_substituted cb S p nps) (macro_token m) (substituted cb m)"
      by (simp only: replace_skip_piece[OF d])
    also have "\<dots> = (p0 @ substituted cb n) @ partly_substituted cb (insert m S) p nps"
      by (simp only: ih[OF dp])
    also have "\<dots> = partly_substituted cb (insert m S) p0 (np # nps)"
      using True by (simp add: partly_substituted_Cons np)
    finally show ?thesis .
  next
    case False
    have start: "partly_substituted cb S p0 (np # nps)
            = p0 @ macro_token n @ partly_substituted cb S p nps"
      using False by (simp add: partly_substituted_Cons np)
    show ?thesis
    proof (cases "n = m")
      case True
      have "replace (partly_substituted cb S p0 (np # nps)) (macro_token m) (substituted cb m)
              = p0 @ replace (macro_token m @ partly_substituted cb S p nps) (macro_token m) (substituted cb m)"
        by (simp only: start True replace_skip_piece[OF Cons.prems(1)])
      also have "\<dots> = p0 @ substituted cb m @ replace (partly_substituted cb S p nps) (macro_token m) (substituted cb m)"
        by (simp only: replace_hit[OF mt])
      also have "\<dots> = p0 @ substituted cb m @ partly_substituted cb (insert m S) p nps"
        by (simp only: ih[OF dp])
      also have "\<dots> = partly_substituted cb (insert m S) p0 (np # nps)"
        using True by (simp add: partly_substituted_Cons np)
      finally show ?thesis .
    next
      case neq: False
      from partly_substituted_head[of cb S p nps] obtain r where
        r: "partly_substituted cb S p nps = p @ r" "nps = [] \<longrightarrow> r = []" by blast
      have "(\<exists>c \<in> set p. c \<notin> set m) \<or> r = []"
      proof (cases "nps = []")
        case True
        with r show ?thesis by simp
      next
        case False
        with hs have "has_separator p" by simp
        from has_separator_char[OF this valid_name_chars(2)[OF m]] show ?thesis by simp
      qed
      from no_prefix_after_piece[OF dp this]
      have npx: "\<not> prefix (m @ ''$'') (partly_substituted cb S p nps)" by (simp add: r)
      have "replace (partly_substituted cb S p0 (np # nps)) (macro_token m) (substituted cb m)
              = p0 @ replace (macro_token n @ partly_substituted cb S p nps) (macro_token m) (substituted cb m)"
        by (simp only: start replace_skip_piece[OF Cons.prems(1)])
      also have "\<dots> = p0 @ macro_token n @ replace (partly_substituted cb S p nps) (macro_token m) (substituted cb m)"
        by (simp only: replace_other_token[OF neq dn dm npx])
      also have "\<dots> = p0 @ macro_token n @ partly_substituted cb (insert m S) p nps"
        by (simp only: ih[OF dp])
      also have "\<dots> = partly_substituted cb (insert m S) p0 (np # nps)"
        using False neq by (simp add: partly_substituted_Cons np)
      finally show ?thesis .
    qed
  qed
qed

lemma fold_replace_partly_substituted:
  assumes "CHR ''$'' \<notin> set p0"
    and "\<forall>np \<in> set nps. valid_name (fst np) \<and> CHR ''$'' \<notin> set (snd np)"
    and "separated nps"
  shows "\<forall>m \<in> set ms. valid_name m \<and> CHR ''$'' \<notin> set (substituted cb m) \<Longrightarrow>
         \<forall>n \<in> S. CHR ''$'' \<notin> set (substituted cb n) \<Longrightarrow>
         foldl (\<lambda>q m. replace q (macro_token m) (substituted cb m)) (partly_substituted cb S p0 nps) ms
           = partly_substituted cb (S \<union> set ms) p0 nps"
proof (induction ms arbitrary: S)
  case Nil
  then show ?case by simp
next
  case (Cons m ms)
  from Cons.prems(1) have vm: "valid_name m" "CHR ''$'' \<notin> set (substituted cb m)"
    and r: "\<forall>m \<in> set ms. valid_name m \<and> CHR ''$'' \<notin> set (substituted cb m)" by simp_all
  have step: "replace (partly_substituted cb S p0 nps) (macro_token m) (substituted cb m)
           = partly_substituted cb (insert m S) p0 nps"
    by (rule replace_partly_substituted[OF vm Cons.prems(2) assms])
  have S': "\<forall>n \<in> insert m S. CHR ''$'' \<notin> set (substituted cb n)"
    using vm(2) Cons.prems(2) by simp
  from Cons.IH[OF r S'] show ?case by (simp add: step)
qed

lemma partly_substituted_none: "partly_substituted cb {} p0 nps = tokens_text p0 nps"
  by (simp add: partly_substituted_def tokens_text_def)

lemma partly_substituted_all:
  "fst ` set nps \<subseteq> S \<Longrightarrow> partly_substituted cb S p0 nps = substituted_text cb p0 nps"
proof (induction nps arbitrary: p0)
  case Nil
  then show ?case by (simp add: partly_substituted_def substituted_text_def)
next
  case (Cons np nps)
  then have "fst np \<in> S" and "fst ` set nps \<subseteq> S" by simp_all
  with Cons.IH[of "snd np"] show ?case
    by (simp add: partly_substituted_def substituted_text_def)
qed

lemma substituted_no_dollar:
  "CHR ''$'' \<notin> set (cb n) \<Longrightarrow> CHR ''$'' \<notin> set (substituted cb n)"
  by (simp add: substituted_def)

lemma expand_tokens_text:
  assumes "CHR ''$'' \<notin> set p0"
    and "\<forall>np \<in> set nps. valid_name (fst np) \<and> CHR ''$'' \<notin> set (snd np)
                          \<and> CHR ''$'' \<notin> set (envCallback (fst np))"
    and "separated nps"
  shows "fst (expand_macros envCallback (tokens_text p0 nps)) = substituted_text envCallback p0 nps"
proof -
  let ?ms = "collect_macros (globalMatch_macro (tokens_text p0 nps)) []"
  from assms(2) have v: "\<forall>np \<in> set nps. valid_name (fst np) \<and> CHR ''$'' \<notin> set (snd np)" by blast
  have gm: "globalMatch_macro (tokens_text p0 nps) = map fst nps"
    by (rule globalMatch_tokens_text[OF assms(1) v])
  have ms: "?ms = rev (remdups (rev (map fst nps)))"
    by (simp add: gm collect_macros_remdups)
  then have set_ms: "set ?ms = fst ` set nps" by simp
  have "\<forall>np \<in> set nps. valid_name (fst np) \<and> CHR ''$'' \<notin> set (substituted envCallback (fst np))"
    using assms(2) substituted_no_dollar by blast
  then have ok: "\<forall>m \<in> set ?ms. valid_name m \<and> CHR ''$'' \<notin> set (substituted envCallback m)"
    unfolding set_ms by auto
  have "fst (expand_macros envCallback (tokens_text p0 nps))
          = foldl (\<lambda>q m. replace q (macro_token m) (substituted envCallback m))
              (partly_substituted envCallback {} p0 nps) ?ms"
    by (simp add: expand_macros_def replace_macros_fold partly_substituted_none)
  also have "\<dots> = partly_substituted envCallback ({} \<union> set ?ms) p0 nps"
    by (rule fold_replace_partly_substituted[OF assms(1) v assms(3) ok]) simp
  also have "\<dots> = substituted_text envCallback p0 nps"
    by (rule partly_substituted_all) (simp add: set_ms)
  finally show ?thesis .
qed

lemma count_list_distinct: "distinct xs \<Longrightarrow> x \<in> set xs \<Longrightarrow> count_list xs x = 1"
  by (induction xs) auto


section \<open>The example installation, evaluated\<close>

lemmas ex_eval =
  match_marker_def is_space_def is_digit_def versionSpecificPart_def toInt_def decimal_def
  digit_val_def mid_def ex_fs_def ex_con_def ex_odbc_def ex_world_def dbmsScriptPath_def Let_def
  contextFolder_def contains_ci_def toLower_def toLowerChar_def qhash_insert_def getScript_def
  get_bunch_def set_bunch_def refresh_def make_script_def ex_files_tree_def ex_files_content_def
  load_files.simps

lemmas ex_exec =
  execute_def expand_macros_def match_macro_def is_word_def ex_env_def ex_js_def new_conductor_def
  destroy_def clear_def rowCount_def columnCount_def columnName0_def value00_def appendHtml_def
  appendScript_def appendTable_def ex_t_script_def ex_t_html_def ex_t_named_def ex_t_wide_def
  replace.simps

lemma ex_path_tree:
  "fst (dbmsScriptPath ex_fs (Some ex_con) Tree ex_world) = Inr ''/app/scripts/postgresql/tree/''"
  by (simp add: ex_eval)

lemma ex_path_content:
  "fst (dbmsScriptPath ex_fs (Some ex_con) Content ex_world) = Inr ''/app/scripts/postgresql/content/''"
  by (simp add: ex_eval)

lemma ex_getScript_indexes:
  "fst (getScript ex_fs (Some ex_con) Tree ''indexes'' ex_world) =
     Inr (Some \<lparr>body = ''/* V90000+ */ select $a.b$'', stype = SQL\<rparr>)"
  by (simp add: ex_eval)

lemma ex_getScript_report:
  "fst (getScript ex_fs (Some ex_con) Tree ''report'' ex_world) =
     Inr (Some \<lparr>body = ''run()'', stype = QS\<rparr>)"
  by (simp add: ex_eval)

lemma ex_expand_indexes:
  "expand_macros ex_env ''/* V90000+ */ select $a.b$'' = (''/* V90000+ */ select NULL'', [''a.b''])"
  by (simp add: expand_macros_def match_macro_def is_word_def ex_env_def replace.simps)

lemma ex_expand_report: "expand_macros ex_env ''run()'' = (''run()'', [])"
  by (simp add: expand_macros_def match_macro_def is_word_def ex_env_def)


section \<open>Claims about version partitioning\<close>

text \<open>
  C6. For a script with at least one marker: when some segment's key is at most the
  requested version, the text returned is the one stored under the greatest such key (the last
  segment of the script carrying that key); when every key is above the requested version the
  empty string is returned, and no error. Keys are never negative, so the version \<open>-1\<close> that
  \<open>refresh\<close> passes for the root context always gives the empty string for such a script.
\<close>

theorem versionSpecificPart_highest_key:
  assumes "globalMatch 0 script \<noteq> []"
  shows "((\<exists>k \<in> fst ` set (segments script (globalMatch 0 script)). k \<le> version) \<longrightarrow>
            map_of (rev (segments script (globalMatch 0 script)))
              (Max {k \<in> fst ` set (segments script (globalMatch 0 script)). k \<le> version})
            = Some (versionSpecificPart script version))
       \<and> ((\<forall>k \<in> fst ` set (segments script (globalMatch 0 script)). version < k) \<longrightarrow>
            versionSpecificPart script version = '''')
       \<and> (version < 0 \<longrightarrow> versionSpecificPart script version = '''')"
proof -
  let ?segs = "segments script (globalMatch 0 script)"
  let ?parts = "collect_parts script (globalMatch 0 script) []"
  have vsp: "versionSpecificPart script version = search_highest (rev ?parts) version"
    using assms by (simp add: versionSpecificPart_def)
  have sorted: "sorted_wrt (<) (map fst ?parts)"
    by (simp add: collect_parts_fold fold_insert_sorted)
  have keys: "fst ` set ?parts = fst ` set ?segs"
    by (simp add: collect_parts_fold fold_insert_keys)
  have mo: "map_of ?parts = map_of (rev ?segs)"
    by (simp add: collect_parts_fold fold_insert_map_of)
  have none: "versionSpecificPart script version = ''''" if "\<forall>k \<in> fst ` set ?segs. version < k"
    unfolding vsp by (rule search_highest_none) (use that keys in auto)
  have some: "map_of (rev ?segs) (Max {k \<in> fst ` set ?segs. k \<le> version})
            = Some (versionSpecificPart script version)" if "\<exists>k \<in> fst ` set ?segs. k \<le> version"
    using search_highest_rev_sorted[OF sorted, of version] that unfolding vsp keys mo by simp
  have neg: "versionSpecificPart script version = ''''" if "version < 0"
  proof (rule none, rule ballI)
    fix k assume "k \<in> fst ` set ?segs"
    then have "0 \<le> k" by (rule segments_keys_nonneg)
    with that show "version < k" by simp
  qed
  from none some neg show ?thesis by blast
qed

theorem versionSpecificPart_highest_key_witness:
  "globalMatch 0 ex_versioned \<noteq> []
   \<and> (\<exists>k \<in> fst ` set (segments ex_versioned (globalMatch 0 ex_versioned)). k \<le> 250)
   \<and> map_of (rev (segments ex_versioned (globalMatch 0 ex_versioned)))
        (Max {k \<in> fst ` set (segments ex_versioned (globalMatch 0 ex_versioned)). k \<le> 250})
      = Some (versionSpecificPart ex_versioned 250)
   \<and> fst ` set (segments ex_versioned (globalMatch 0 ex_versioned)) = {100, 200, 300}
   \<and> versionSpecificPart ex_versioned 50 = []
   \<and> (- 1 :: int) < 0 \<and> versionSpecificPart ex_versioned (- 1) = []"
proof -
  have ms: "globalMatch 0 ex_versioned = [(0, ''100''), (12, ''200''), (24, ''300'')]"
    by (simp add: ex_versioned_def match_marker_def is_space_def is_digit_def)
  have ne: "globalMatch 0 ex_versioned \<noteq> []"
    by (simp add: ms)
  have keys: "fst ` set (segments ex_versioned (globalMatch 0 ex_versioned)) = {100, 200, 300}"
    by (simp add: ms toInt_def decimal_def digit_val_def)
  have h250: "\<exists>k \<in> fst ` set (segments ex_versioned (globalMatch 0 ex_versioned)). k \<le> 250"
    unfolding keys by simp
  have h50: "\<forall>k \<in> fst ` set (segments ex_versioned (globalMatch 0 ex_versioned)). 50 < k"
    unfolding keys by simp
  from versionSpecificPart_highest_key [OF ne, of 250] versionSpecificPart_highest_key [OF ne, of 50]
    versionSpecificPart_highest_key [OF ne, of "- 1"] ne h250 h50 keys
  show ?thesis by simp
qed


text \<open>
  C3 as the specification states it: the segment begins after its marker comment, so that
  version 250 selects exactly \<open>B\<close> and version 300 exactly \<open>C\<close>. The pattern is a lookahead:
  its match is empty, \<^verbatim>\<open>capturedEnd()\<close> is the offset where the marker begins, and the
  segment selected for 250 is the marker comment followed by \<open>B\<close>.
\<close>

theorem versionSpecificPart_marker_counterexample:
  "versionSpecificPart ex_versioned 250 = ''/* V200+ */B''
   \<and> versionSpecificPart ex_versioned 250 \<noteq> ''B''
   \<and> versionSpecificPart ex_versioned 300 \<noteq> ''C''"
  by (simp add: ex_versioned_def versionSpecificPart_def match_marker_def is_space_def is_digit_def
      toInt_def decimal_def digit_val_def mid_def)

text \<open>
  C3 (amended). For a script with markers and a requested version that some key does not
  exceed, the text returned spans from the start of the marker comment of the selected marker,
  the last marker carrying the greatest key not above the version, to the start of the next
  marker (or to the end of the text when it is the last one): the pattern is a lookahead, so
  the segment begins where the marker begins, not after it. When the next marker begins at or
  after the end of that comment, or there is no next marker, the text returned begins with the
  whole marker comment; when the next marker begins before the end of the comment, the text
  returned is the comment less its last character, the closing slash. For the example script,
  version 250 gives the marker \<open>V200+\<close> followed by \<open>B\<close> and version 300 the marker
  \<open>V300+\<close> followed by \<open>C\<close>; for two markers that share a slash, version 1 gives the
  first marker comment less its closing slash.
\<close>

theorem versionSpecificPart_segment_from_marker:
  assumes "globalMatch 0 script \<noteq> []"
    and "\<exists>k \<in> fst ` set (segments script (globalMatch 0 script)). k \<le> version"
  shows "(\<exists>i < length (globalMatch 0 script).
       toInt (snd (globalMatch 0 script ! i))
         = Max {k \<in> fst ` set (segments script (globalMatch 0 script)). k \<le> version}
     \<and> (\<forall>j < length (globalMatch 0 script). i < j \<longrightarrow>
           toInt (snd (globalMatch 0 script ! j))
             \<noteq> Max {k \<in> fst ` set (segments script (globalMatch 0 script)). k \<le> version})
     \<and> match_marker (drop (fst (globalMatch 0 script ! i)) script)
          = Some (snd (globalMatch 0 script ! i))
     \<and> versionSpecificPart script version =
          (if Suc i < length (globalMatch 0 script)
           then take (fst (globalMatch 0 script ! Suc i) - fst (globalMatch 0 script ! i))
                     (drop (fst (globalMatch 0 script ! i)) script)
           else drop (fst (globalMatch 0 script ! i)) script)
     \<and> ((Suc i < length (globalMatch 0 script) \<longrightarrow>
            fst (globalMatch 0 script ! i)
              + length (marker_comment (drop (fst (globalMatch 0 script ! i)) script))
            \<le> fst (globalMatch 0 script ! Suc i))
         \<longrightarrow> prefix (marker_comment (drop (fst (globalMatch 0 script ! i)) script))
                      (versionSpecificPart script version))
     \<and> (Suc i < length (globalMatch 0 script)
          \<and> fst (globalMatch 0 script ! Suc i)
              < fst (globalMatch 0 script ! i)
                + length (marker_comment (drop (fst (globalMatch 0 script ! i)) script))
         \<longrightarrow> versionSpecificPart script version
               = butlast (marker_comment (drop (fst (globalMatch 0 script ! i)) script))))
   \<and> versionSpecificPart ex_versioned 250 = ''/* V200+ */B''
   \<and> versionSpecificPart ex_versioned 300 = ''/* V300+ */C''
   \<and> versionSpecificPart ex_shared_slash 1 = ''/* V1+ *''"
proof (intro conjI)
  show "\<exists>i < length (globalMatch 0 script).
       toInt (snd (globalMatch 0 script ! i))
         = Max {k \<in> fst ` set (segments script (globalMatch 0 script)). k \<le> version}
     \<and> (\<forall>j < length (globalMatch 0 script). i < j \<longrightarrow>
           toInt (snd (globalMatch 0 script ! j))
             \<noteq> Max {k \<in> fst ` set (segments script (globalMatch 0 script)). k \<le> version})
     \<and> match_marker (drop (fst (globalMatch 0 script ! i)) script)
          = Some (snd (globalMatch 0 script ! i))
     \<and> versionSpecificPart script version =
          (if Suc i < length (globalMatch 0 script)
           then take (fst (globalMatch 0 script ! Suc i) - fst (globalMatch 0 script ! i))
                     (drop (fst (globalMatch 0 script ! i)) script)
           else drop (fst (globalMatch 0 script ! i)) script)
     \<and> ((Suc i < length (globalMatch 0 script) \<longrightarrow>
            fst (globalMatch 0 script ! i)
              + length (marker_comment (drop (fst (globalMatch 0 script ! i)) script))
            \<le> fst (globalMatch 0 script ! Suc i))
         \<longrightarrow> prefix (marker_comment (drop (fst (globalMatch 0 script ! i)) script))
                      (versionSpecificPart script version))
     \<and> (Suc i < length (globalMatch 0 script)
          \<and> fst (globalMatch 0 script ! Suc i)
              < fst (globalMatch 0 script ! i)
                + length (marker_comment (drop (fst (globalMatch 0 script ! i)) script))
         \<longrightarrow> versionSpecificPart script version
               = butlast (marker_comment (drop (fst (globalMatch 0 script ! i)) script)))"
    by (rule versionSpecificPart_comment_head[OF assms])
next
  show "versionSpecificPart ex_versioned 250 = ''/* V200+ */B''"
    by (simp add: ex_versioned_def versionSpecificPart_def match_marker_def is_space_def
        is_digit_def toInt_def decimal_def digit_val_def mid_def)
next
  show "versionSpecificPart ex_versioned 300 = ''/* V300+ */C''"
    by (simp add: ex_versioned_def versionSpecificPart_def match_marker_def is_space_def
        is_digit_def toInt_def decimal_def digit_val_def mid_def)
next
  show "versionSpecificPart ex_shared_slash 1 = ''/* V1+ *''"
    by (simp add: ex_shared_slash_def versionSpecificPart_def match_marker_def is_space_def
        is_digit_def toInt_def decimal_def digit_val_def mid_def)
qed

theorem versionSpecificPart_segment_from_marker_witness:
  "globalMatch 0 ex_versioned = [(0, ''100''), (12, ''200''), (24, ''300'')]
   \<and> fst ` set (segments ex_versioned (globalMatch 0 ex_versioned)) = {100, 200, 300}
   \<and> (\<exists>k \<in> fst ` set (segments ex_versioned (globalMatch 0 ex_versioned)). k \<le> 250)
   \<and> (\<exists>i < length (globalMatch 0 ex_versioned).
         toInt (snd (globalMatch 0 ex_versioned ! i))
           = Max {k \<in> fst ` set (segments ex_versioned (globalMatch 0 ex_versioned)). k \<le> 250}
       \<and> versionSpecificPart ex_versioned 250 =
          (if Suc i < length (globalMatch 0 ex_versioned)
           then take (fst (globalMatch 0 ex_versioned ! Suc i) - fst (globalMatch 0 ex_versioned ! i))
                     (drop (fst (globalMatch 0 ex_versioned ! i)) ex_versioned)
           else drop (fst (globalMatch 0 ex_versioned ! i)) ex_versioned))
   \<and> versionSpecificPart ex_versioned 250 = ''/* V200+ */B''
   \<and> marker_comment (drop 12 ex_versioned) = ''/* V200+ */''
   \<and> prefix (marker_comment (drop 12 ex_versioned)) (versionSpecificPart ex_versioned 250)
   \<and> globalMatch 0 ex_shared_slash = [(0, ''1''), (8, ''2'')]
   \<and> marker_comment ex_shared_slash = ''/* V1+ */''
   \<and> versionSpecificPart ex_shared_slash 1 = butlast (marker_comment ex_shared_slash)"
proof -
  have ms: "globalMatch 0 ex_versioned = [(0, ''100''), (12, ''200''), (24, ''300'')]"
    by (simp add: ex_versioned_def match_marker_def is_space_def is_digit_def)
  have ne: "globalMatch 0 ex_versioned \<noteq> []"
    by (simp add: ms)
  have keys: "fst ` set (segments ex_versioned (globalMatch 0 ex_versioned)) = {100, 200, 300}"
    by (simp add: ms toInt_def decimal_def digit_val_def)
  have h: "\<exists>k \<in> fst ` set (segments ex_versioned (globalMatch 0 ex_versioned)). k \<le> 250"
    unfolding keys by simp
  note t = versionSpecificPart_segment_from_marker [OF ne h]
  from t [THEN conjunct1]
  have sel: "\<exists>i < length (globalMatch 0 ex_versioned).
         toInt (snd (globalMatch 0 ex_versioned ! i))
           = Max {k \<in> fst ` set (segments ex_versioned (globalMatch 0 ex_versioned)). k \<le> 250}
       \<and> versionSpecificPart ex_versioned 250 =
          (if Suc i < length (globalMatch 0 ex_versioned)
           then take (fst (globalMatch 0 ex_versioned ! Suc i) - fst (globalMatch 0 ex_versioned ! i))
                     (drop (fst (globalMatch 0 ex_versioned ! i)) ex_versioned)
           else drop (fst (globalMatch 0 ex_versioned ! i)) ex_versioned)"
    by (elim exE conjE) (intro exI conjI, assumption+)
  from t have v: "versionSpecificPart ex_versioned 250 = ''/* V200+ */B''"
    by (elim conjE)
  from t have o: "versionSpecificPart ex_shared_slash 1 = ''/* V1+ *''"
    by (elim conjE)
  have mc: "marker_comment (drop 12 ex_versioned) = ''/* V200+ */''"
    by (simp add: ex_versioned_def marker_comment_def is_space_def is_digit_def)
  have pre: "prefix (marker_comment (drop 12 ex_versioned)) (versionSpecificPart ex_versioned 250)"
    by (simp add: mc v)
  have ms2: "globalMatch 0 ex_shared_slash = [(0, ''1''), (8, ''2'')]"
    by (simp add: ex_shared_slash_def match_marker_def is_space_def is_digit_def)
  have mc2: "marker_comment ex_shared_slash = ''/* V1+ */''"
    by (simp add: ex_shared_slash_def marker_comment_def is_space_def is_digit_def)
  have cut: "versionSpecificPart ex_shared_slash 1 = butlast (marker_comment ex_shared_slash)"
    by (simp add: o mc2)
  from ms keys h sel v mc pre ms2 mc2 cut show ?thesis by (intro conjI)
qed


section \<open>Claims about path resolution\<close>

text \<open>
  C7. After a successful \<open>dbmsScriptPath\<close> for a connection and a context, a second call
  for the same connection and context, on the state the first one left, returns the same path
  whatever the file system then holds; it makes no file-system request and leaves the cache of
  vendor directories as it is: the path is the cached directory of the identity
  \<open>dbmsName + dbmsVersion\<close> followed by the folder of the context.
\<close>

theorem dbmsScriptPath_memoized:
  assumes "fst (dbmsScriptPath fs (Some c) context w) = Inr p"
  shows "fst (dbmsScriptPath fs' (Some c) context (snd (dbmsScriptPath fs (Some c) context w))) = Inr p
       \<and> fs_log (snd (dbmsScriptPath fs' (Some c) context (snd (dbmsScriptPath fs (Some c) context w))))
           = fs_log (snd (dbmsScriptPath fs (Some c) context w))
       \<and> g_dbms_paths (snd (dbmsScriptPath fs' (Some c) context (snd (dbmsScriptPath fs (Some c) context w))))
           = g_dbms_paths (snd (dbmsScriptPath fs (Some c) context w))
       \<and> (\<exists>base. map_of (g_dbms_paths (snd (dbmsScriptPath fs (Some c) context w)))
                     (dbmsName c @ dbmsVersion c) = Some base
                 \<and> p = base @ contextFolder context)"
proof -
  obtain w' where w': "dbmsScriptPath fs (Some c) context w = (Inr p, w')"
    using assms by (cases "dbmsScriptPath fs (Some c) context w") auto
  show ?thesis
    using dbmsScriptPath_again[OF w', of fs'] dbmsScriptPath_result_cached[OF w']
    by (simp add: w')
qed

theorem dbmsScriptPath_memoized_witness:
  "fst (dbmsScriptPath ex_fs (Some ex_con) Tree ex_world) = Inr ''/app/scripts/postgresql/tree/''
   \<and> fst (dbmsScriptPath ex_no_fs (Some ex_con) Tree
            (snd (dbmsScriptPath ex_fs (Some ex_con) Tree ex_world)))
       = Inr ''/app/scripts/postgresql/tree/''
   \<and> fs_log (snd (dbmsScriptPath ex_no_fs (Some ex_con) Tree
            (snd (dbmsScriptPath ex_fs (Some ex_con) Tree ex_world))))
       = fs_log (snd (dbmsScriptPath ex_fs (Some ex_con) Tree ex_world))"
  using dbmsScriptPath_memoized [OF ex_path_tree, of ex_no_fs] ex_path_tree
  by simp

text \<open>
  C8. On a cache miss, with the scripts root present and a non-empty DBMS name, the vendor
  segment of the path is the first sub-directory, in listing order, whose name the DBMS name
  contains as a substring without regard to case, followed by a slash; when no sub-directory
  matches it is \<open>default/\<close> for an ODBC connection and empty otherwise. The call returns
  the root, the segment and the context folder when that path exists, and fails otherwise.
\<close>

theorem dbmsScriptPath_vendor_folder:
  assumes "map_of (g_dbms_paths w) (dbmsName c @ dbmsVersion c) = None"
    and "dir_exists fs (scripts_root fs c)"
    and "dbmsName c \<noteq> []"
  shows "\<exists>seg.
      fst (dbmsScriptPath fs (Some c) context w) =
        (if file_exists fs (scripts_root fs c @ seg @ contextFolder context)
         then Inr (scripts_root fs c @ seg @ contextFolder context)
         else Inl (DirectoryNotAvailable (scripts_root fs c @ seg @ contextFolder context)))
    \<and> ((\<exists>i < length (entryList fs (scripts_root fs c)).
           seg = entryList fs (scripts_root fs c) ! i @ ''/''
         \<and> contains_ci (dbmsName c) (entryList fs (scripts_root fs c) ! i)
         \<and> (\<forall>j < i. \<not> contains_ci (dbmsName c) (entryList fs (scripts_root fs c) ! j)))
       \<or> ((\<forall>d \<in> set (entryList fs (scripts_root fs c)). \<not> contains_ci (dbmsName c) d)
          \<and> seg = (if isOdbc c then ''default/'' else [])))
    \<and> (\<forall>d. contains_ci (dbmsName c) d \<longleftrightarrow> sublist (toLower d) (toLower (dbmsName c)))"
proof -
  define subdirs where "subdirs = entryList fs (scripts_root fs c)"
  define endPath where "endPath = find_folder (dbmsName c) subdirs"
  define seg where "seg = (if endPath = [] \<and> isOdbc c then ''default/'' else endPath)"
  have fst_eq: "fst (dbmsScriptPath fs (Some c) context w) =
      (if file_exists fs (scripts_root fs c @ seg @ contextFolder context)
       then Inr (scripts_root fs c @ seg @ contextFolder context)
       else Inl (DirectoryNotAvailable (scripts_root fs c @ seg @ contextFolder context)))"
    using assms unfolding seg_def endPath_def subdirs_def scripts_root_def
    by (cases "isOdbc c") (simp_all add: dbmsScriptPath_def Let_def)
  from find_folder_cases[where name = "dbmsName c" and ds = subdirs]
  have "(\<exists>i < length subdirs. seg = subdirs ! i @ ''/''
           \<and> contains_ci (dbmsName c) (subdirs ! i)
           \<and> (\<forall>j < i. \<not> contains_ci (dbmsName c) (subdirs ! j)))
       \<or> ((\<forall>d \<in> set subdirs. \<not> contains_ci (dbmsName c) d)
          \<and> seg = (if isOdbc c then ''default/'' else []))"
  proof
    assume "\<exists>i < length subdirs. find_folder (dbmsName c) subdirs = subdirs ! i @ ''/''
           \<and> contains_ci (dbmsName c) (subdirs ! i)
           \<and> (\<forall>j < i. \<not> contains_ci (dbmsName c) (subdirs ! j))"
    then obtain i where i: "i < length subdirs" "endPath = subdirs ! i @ ''/''"
      "contains_ci (dbmsName c) (subdirs ! i)" "\<forall>j < i. \<not> contains_ci (dbmsName c) (subdirs ! j)"
      unfolding endPath_def by blast
    from i(2) have "endPath \<noteq> []" by simp
    then have "seg = subdirs ! i @ ''/''" using i(2) by (simp add: seg_def)
    with i show ?thesis by blast
  next
    assume a: "(\<forall>d \<in> set subdirs. \<not> contains_ci (dbmsName c) d) \<and> find_folder (dbmsName c) subdirs = []"
    then have "endPath = []" by (simp add: endPath_def)
    then have "seg = (if isOdbc c then ''default/'' else [])" by (simp add: seg_def)
    with a show ?thesis by blast
  qed
  moreover have "\<forall>d. contains_ci (dbmsName c) d \<longleftrightarrow> sublist (toLower d) (toLower (dbmsName c))"
    by (simp add: contains_ci_def contains_sublist)
  ultimately show ?thesis using fst_eq unfolding subdirs_def by blast
qed

theorem dbmsScriptPath_vendor_folder_witness:
  "map_of (g_dbms_paths ex_world) (dbmsName ex_con @ dbmsVersion ex_con) = None
   \<and> dir_exists ex_fs (scripts_root ex_fs ex_con)
   \<and> dbmsName ex_con \<noteq> []
   \<and> contains_ci ''PostgreSQL 14.3'' ''postgresql''
   \<and> \<not> contains_ci ''PostgreSQL 14.3'' ''mysql''
   \<and> (\<exists>seg. fst (dbmsScriptPath ex_fs (Some ex_con) Tree ex_world) =
          (if file_exists ex_fs (scripts_root ex_fs ex_con @ seg @ contextFolder Tree)
           then Inr (scripts_root ex_fs ex_con @ seg @ contextFolder Tree)
           else Inl (DirectoryNotAvailable (scripts_root ex_fs ex_con @ seg @ contextFolder Tree))))
   \<and> fst (dbmsScriptPath ex_fs (Some ex_con) Tree ex_world) = Inr ''/app/scripts/postgresql/tree/''
   \<and> fst (dbmsScriptPath ex_fs (Some ex_odbc) Tree ex_world) = Inr ''/app/scripts/odbc/default/tree/''
   \<and> fst (dbmsScriptPath ex_fs (Some (ex_odbc\<lparr>isOdbc := False\<rparr>)) Root ex_world)
       = Inl (DirectoryNotAvailable ''/app/scripts/'')"
proof -
  have h1: "map_of (g_dbms_paths ex_world) (dbmsName ex_con @ dbmsVersion ex_con) = None"
    by (simp add: ex_world_def)
  have h2: "dir_exists ex_fs (scripts_root ex_fs ex_con)"
    by (simp add: ex_fs_def ex_con_def scripts_root_def)
  have h3: "dbmsName ex_con \<noteq> []"
    by (simp add: ex_con_def)
  have m1: "contains_ci ''PostgreSQL 14.3'' ''postgresql''"
    by (simp add: contains_ci_def toLower_def toLowerChar_def)
  have m2: "\<not> contains_ci ''PostgreSQL 14.3'' ''mysql''"
    by (simp add: contains_ci_def toLower_def toLowerChar_def)
  have e2: "fst (dbmsScriptPath ex_fs (Some ex_odbc) Tree ex_world) = Inr ''/app/scripts/odbc/default/tree/''"
    by (simp add: ex_eval)
  have e3: "fst (dbmsScriptPath ex_fs (Some (ex_odbc\<lparr>isOdbc := False\<rparr>)) Root ex_world)
       = Inl (DirectoryNotAvailable ''/app/scripts/'')"
    by (simp add: ex_eval)
  from dbmsScriptPath_vendor_folder [OF h1 h2 h3, of Tree]
  have "\<exists>seg. fst (dbmsScriptPath ex_fs (Some ex_con) Tree ex_world) =
          (if file_exists ex_fs (scripts_root ex_fs ex_con @ seg @ contextFolder Tree)
           then Inr (scripts_root ex_fs ex_con @ seg @ contextFolder Tree)
           else Inl (DirectoryNotAvailable (scripts_root ex_fs ex_con @ seg @ contextFolder Tree)))"
    by blast
  with h1 h2 h3 m1 m2 e2 e3 ex_path_tree show ?thesis by blast
qed


section \<open>Claims about the registry\<close>

text \<open>
  C9. When the resolved directory holds no script file for the object type and the cached
  bunch of that directory has no entry for it (the directory resolving and its script files
  being readable), \<open>getScript\<close> returns the absent result, not an error. Whenever
  \<open>getScript\<close> returns the absent result, \<open>execute\<close> returns an absent conductor and
  leaves the state exactly as \<open>getScript\<close> left it: after the look-up it makes no call on
  the connection, evaluates nothing in the script engine, calls no resolver and deletes
  nothing. The look-up itself executes no query on the connection, evaluates nothing and calls
  no resolver.
\<close>

theorem execute_missing_object_type:
  "(fst (dbmsScriptPath fs (Some c) context w) = Inr path
      \<and> objectType \<notin> fst ` set (get_bunch path (snd (dbmsScriptPath fs (Some c) context w)))
      \<and> (\<forall>f \<in> set (entryInfoList fs path).
            is_script_file f \<longrightarrow> content f \<noteq> None \<and> baseName f \<noteq> objectType)
     \<longrightarrow> fst (getScript fs (Some c) context objectType w) = Inr None)
   \<and> (fst (getScript fs (Some c) context objectType w) = Inr None
     \<longrightarrow> execute fs js (Some c) context objectType envCallback w
           = (Inr None, snd (getScript fs (Some c) context objectType w)))
   \<and> executed (con_log (snd (getScript fs (Some c) context objectType w))) = executed (con_log w)
   \<and> js_log (snd (getScript fs (Some c) context objectType w)) = js_log w
   \<and> cb_log (snd (getScript fs (Some c) context objectType w)) = cb_log w
   \<and> deleted (snd (getScript fs (Some c) context objectType w)) = deleted w"
proof -
  obtain r w' where g: "getScript fs (Some c) context objectType w = (r, w')"
    by (cases "getScript fs (Some c) context objectType w")
  have a: "fst (getScript fs (Some c) context objectType w) = Inr None"
    if h: "fst (dbmsScriptPath fs (Some c) context w) = Inr path
      \<and> objectType \<notin> fst ` set (get_bunch path (snd (dbmsScriptPath fs (Some c) context w)))
      \<and> (\<forall>f \<in> set (entryInfoList fs path).
            is_script_file f \<longrightarrow> content f \<noteq> None \<and> baseName f \<noteq> objectType)"
  proof -
    from h obtain w1 where p: "dbmsScriptPath fs (Some c) context w = (Inr path, w1)"
      by (cases "dbmsScriptPath fs (Some c) context w") auto
    show ?thesis
      by (rule getScript_missing[OF p]) (use h p in auto)
  qed
  have b: "execute fs js (Some c) context objectType envCallback w
           = (Inr None, snd (getScript fs (Some c) context objectType w))"
    if "fst (getScript fs (Some c) context objectType w) = Inr None"
    using that by (simp add: execute_def g destroy_new_conductor)
  from a b getScript_frame[OF g] show ?thesis by (simp add: g)
qed

theorem execute_missing_object_type_witness:
  "fst (dbmsScriptPath ex_fs (Some ex_con) Tree ex_world) = Inr ''/app/scripts/postgresql/tree/''
   \<and> get_bunch ''/app/scripts/postgresql/tree/'' (snd (dbmsScriptPath ex_fs (Some ex_con) Tree ex_world)) = []
   \<and> map baseName (filter is_script_file (entryInfoList ex_fs ''/app/scripts/postgresql/tree/''))
       = [''indexes'', ''report'']
   \<and> map content (filter is_script_file (entryInfoList ex_fs ''/app/scripts/postgresql/tree/''))
       = [Some ''/* V90000+ */ select $a.b$'', Some ''run()'']
   \<and> fst (getScript ex_fs (Some ex_con) Tree ''missing'' ex_world) = Inr None
   \<and> execute ex_fs ex_js (Some ex_con) Tree ''missing'' ex_env ex_world
       = (Inr None, snd (getScript ex_fs (Some ex_con) Tree ''missing'' ex_world))
   \<and> executed (con_log (snd (execute ex_fs ex_js (Some ex_con) Tree ''missing'' ex_env ex_world))) = []
   \<and> js_log (snd (execute ex_fs ex_js (Some ex_con) Tree ''missing'' ex_env ex_world)) = []
   \<and> cb_log (snd (execute ex_fs ex_js (Some ex_con) Tree ''missing'' ex_env ex_world)) = []
   \<and> deleted (snd (execute ex_fs ex_js (Some ex_con) Tree ''missing'' ex_env ex_world)) = []"
proof -
  have b: "get_bunch ''/app/scripts/postgresql/tree/''
             (snd (dbmsScriptPath ex_fs (Some ex_con) Tree ex_world)) = []"
    by (simp add: ex_eval)
  have h2: "''missing'' \<notin> fst ` set (get_bunch ''/app/scripts/postgresql/tree/''
             (snd (dbmsScriptPath ex_fs (Some ex_con) Tree ex_world)))"
    by (simp add: b)
  have h3: "\<forall>f \<in> set (entryInfoList ex_fs ''/app/scripts/postgresql/tree/'').
              is_script_file f \<longrightarrow> content f \<noteq> None \<and> baseName f \<noteq> ''missing''"
    by (simp add: ex_fs_def ex_files_tree_def is_script_file_def toLower_def toLowerChar_def)
  have n: "map baseName (filter is_script_file (entryInfoList ex_fs ''/app/scripts/postgresql/tree/''))
       = [''indexes'', ''report'']"
    by (simp add: ex_fs_def ex_files_tree_def is_script_file_def toLower_def toLowerChar_def)
  have c: "map content (filter is_script_file (entryInfoList ex_fs ''/app/scripts/postgresql/tree/''))
       = [Some ''/* V90000+ */ select $a.b$'', Some ''run()'']"
    by (simp add: ex_fs_def ex_files_tree_def is_script_file_def toLower_def toLowerChar_def)
  have e: "executed (con_log ex_world) = []" "js_log ex_world = []" "cb_log ex_world = []"
    "deleted ex_world = []"
    by (simp_all add: ex_world_def executed_def)
  note t = execute_missing_object_type [where fs = ex_fs and c = ex_con and w = ex_world
      and path = "''/app/scripts/postgresql/tree/''" and objectType = "''missing''"
      and js = ex_js and envCallback = ex_env, of Tree]
  have hyp: "fst (dbmsScriptPath ex_fs (Some ex_con) Tree ex_world) = Inr ''/app/scripts/postgresql/tree/''
      \<and> ''missing'' \<notin> fst ` set (get_bunch ''/app/scripts/postgresql/tree/''
             (snd (dbmsScriptPath ex_fs (Some ex_con) Tree ex_world)))
      \<and> (\<forall>f \<in> set (entryInfoList ex_fs ''/app/scripts/postgresql/tree/'').
              is_script_file f \<longrightarrow> content f \<noteq> None \<and> baseName f \<noteq> ''missing'')"
    using ex_path_tree h2 h3 by (intro conjI)
  from t [THEN conjunct1, THEN mp, OF hyp]
  have g: "fst (getScript ex_fs (Some ex_con) Tree ''missing'' ex_world) = Inr None" .
  from t [THEN conjunct2, THEN conjunct1, THEN mp, OF g]
  have x: "execute ex_fs ex_js (Some ex_con) Tree ''missing'' ex_env ex_world
       = (Inr None, snd (getScript ex_fs (Some ex_con) Tree ''missing'' ex_world))" .
  from t [THEN conjunct2, THEN conjunct2] e
  have f: "executed (con_log (snd (getScript ex_fs (Some ex_con) Tree ''missing'' ex_world))) = []"
    "js_log (snd (getScript ex_fs (Some ex_con) Tree ''missing'' ex_world)) = []"
    "cb_log (snd (getScript ex_fs (Some ex_con) Tree ''missing'' ex_world)) = []"
    "deleted (snd (getScript ex_fs (Some ex_con) Tree ''missing'' ex_world)) = []"
    by simp_all
  from ex_path_tree b n c g x f show ?thesis by (simp only: x snd_conv)
qed

text \<open>
  C5 as the specification states it: when a file cannot be read, the partly filled bunch is
  rolled back. Here the second of three script files cannot be opened: \<open>refresh\<close> fails, the
  bunch of the directory keeps the script of the first file, and \<open>getScript\<close> then serves
  from that bunch without a new \<open>refresh\<close>, so the third script is reported absent.
\<close>

theorem refresh_partial_bunch_counterexample:
  "fst (refresh ex_fs (Some ex_con) Content ex_world) = Inl (CantOpen ''c/a.sql'')
   \<and> get_bunch ''/app/scripts/postgresql/content/'' (snd (refresh ex_fs (Some ex_con) Content ex_world))
       = [(''a'', \<lparr>body = ''select 1'', stype = SQL\<rparr>)]
   \<and> fst (getScript ex_fs (Some ex_con) Content ''c''
            (snd (refresh ex_fs (Some ex_con) Content ex_world))) = Inr None"
  by (simp add: ex_eval)

text \<open>
  C5 (amended). If a script file cannot be opened during \<open>refresh\<close>, \<open>refresh\<close> raises the
  fatal error and stops there; the bunch of the directory, emptied at the start of the
  refresh, is left holding the scripts of the files read before the unreadable one. Nothing is
  rolled back: when that bunch is not empty, a later \<open>getScript\<close> for the same connection
  and context answers from it, whatever the file system then holds and without a request to
  the file system, and leaves it as it is. (The message of the error names the first file of
  the listing.)
\<close>

theorem refresh_unreadable_file:
  assumes "fst (dbmsScriptPath fs (Some c) context w) = Inr path"
    and "entryInfoList fs path = pre @ f # post"
    and "\<forall>g \<in> set pre. is_script_file g \<longrightarrow> content g \<noteq> None"
    and "is_script_file f" and "content f = None"
  shows "fst (refresh fs (Some c) context w) = Inl (CantOpen (filePath ((pre @ f # post) ! 0)))
       \<and> get_bunch path (snd (refresh fs (Some c) context w)) = loaded_bunch c context pre []
       \<and> (loaded_bunch c context pre [] \<noteq> [] \<longrightarrow>
            fst (getScript fs' (Some c) context objectType (snd (refresh fs (Some c) context w)))
              = Inr (map_of (loaded_bunch c context pre []) objectType)
          \<and> fs_log (snd (getScript fs' (Some c) context objectType (snd (refresh fs (Some c) context w))))
              = fs_log (snd (refresh fs (Some c) context w))
          \<and> get_bunch path (snd (getScript fs' (Some c) context objectType
                                    (snd (refresh fs (Some c) context w))))
              = loaded_bunch c context pre [])"
proof -
  obtain w1 where p: "dbmsScriptPath fs (Some c) context w = (Inr path, w1)"
    using assms(1) by (cases "dbmsScriptPath fs (Some c) context w") auto
  from refresh_unreadable_state[OF p assms(2-5)] obtain w' where
    r: "refresh fs (Some c) context w = (Inl (CantOpen (filePath ((pre @ f # post) ! 0))), w')"
    and b: "get_bunch path w' = loaded_bunch c context pre []"
    and d: "g_dbms_paths w' = g_dbms_paths w1" by blast
  from dbmsScriptPath_result_cached[OF p] obtain base where
    base: "map_of (g_dbms_paths w1) (dbmsName c @ dbmsVersion c) = Some base"
    and path: "path = base @ contextFolder context" by blast
  have base': "map_of (g_dbms_paths w') (dbmsName c @ dbmsVersion c) = Some base"
    by (simp add: d base)
  have later: "fst (getScript fs' (Some c) context objectType w')
              = Inr (map_of (loaded_bunch c context pre []) objectType)
          \<and> fs_log (snd (getScript fs' (Some c) context objectType w')) = fs_log w'
          \<and> get_bunch path (snd (getScript fs' (Some c) context objectType w'))
              = loaded_bunch c context pre []"
    if ne: "loaded_bunch c context pre [] \<noteq> []"
  proof -
    have "get_bunch (base @ contextFolder context) w' \<noteq> []"
      using ne b by (simp add: path)
    from getScript_cached_bunch[OF base' this, of fs' objectType] b
    show ?thesis by (simp add: path)
  qed
  from r b later show ?thesis by simp
qed

theorem refresh_unreadable_file_witness:
  "fst (dbmsScriptPath ex_fs (Some ex_con) Content ex_world) = Inr ''/app/scripts/postgresql/content/''
   \<and> entryInfoList ex_fs ''/app/scripts/postgresql/content/''
       = [ex_files_content ! 0] @ (ex_files_content ! 1) # [ex_files_content ! 2]
   \<and> content (ex_files_content ! 0) \<noteq> None
   \<and> is_script_file (ex_files_content ! 1) \<and> content (ex_files_content ! 1) = None
   \<and> fst (refresh ex_fs (Some ex_con) Content ex_world) = Inl (CantOpen ''c/a.sql'')
   \<and> get_bunch ''/app/scripts/postgresql/content/'' (snd (refresh ex_fs (Some ex_con) Content ex_world))
       = loaded_bunch ex_con Content [ex_files_content ! 0] []
   \<and> loaded_bunch ex_con Content [ex_files_content ! 0] []
       = [(''a'', \<lparr>body = ''select 1'', stype = SQL\<rparr>)]
   \<and> fst (getScript ex_fs (Some ex_con) Content ''c''
            (snd (refresh ex_fs (Some ex_con) Content ex_world))) = Inr None
   \<and> fs_log (snd (getScript ex_fs (Some ex_con) Content ''c''
            (snd (refresh ex_fs (Some ex_con) Content ex_world))))
       = fs_log (snd (refresh ex_fs (Some ex_con) Content ex_world))"
proof -
  have h2: "entryInfoList ex_fs ''/app/scripts/postgresql/content/''
       = [ex_files_content ! 0] @ (ex_files_content ! 1) # [ex_files_content ! 2]"
    by (simp add: ex_fs_def ex_files_content_def)
  have c0: "content (ex_files_content ! 0) \<noteq> None"
    by (simp add: ex_files_content_def)
  then have h3: "\<forall>g \<in> set [ex_files_content ! 0]. is_script_file g \<longrightarrow> content g \<noteq> None"
    by simp
  have h4: "is_script_file (ex_files_content ! 1)"
    by (simp add: ex_files_content_def is_script_file_def toLower_def toLowerChar_def)
  have h5: "content (ex_files_content ! 1) = None"
    by (simp add: ex_files_content_def)
  have p: "filePath (([ex_files_content ! 0] @ (ex_files_content ! 1) # [ex_files_content ! 2]) ! 0) = ''c/a.sql''"
    by (simp add: ex_files_content_def)
  have lb: "loaded_bunch ex_con Content [ex_files_content ! 0] []
       = [(''a'', \<lparr>body = ''select 1'', stype = SQL\<rparr>)]"
    by (simp add: loaded_bunch_def loaded_script_def make_script_def is_script_file_def
        ex_files_content_def toLower_def toLowerChar_def qhash_insert_def versionSpecificPart_def
        match_marker_def)
  have ne: "loaded_bunch ex_con Content [ex_files_content ! 0] [] \<noteq> []"
    by (simp add: lb)
  have m: "map_of (loaded_bunch ex_con Content [ex_files_content ! 0] []) ''c'' = None"
    by (simp add: lb)
  note t = refresh_unreadable_file [where fs' = ex_fs and objectType = "''c''",
      OF ex_path_content h2 h3 h4 h5]
  from t p have r: "fst (refresh ex_fs (Some ex_con) Content ex_world) = Inl (CantOpen ''c/a.sql'')"
    by simp
  from t have b: "get_bunch ''/app/scripts/postgresql/content/''
        (snd (refresh ex_fs (Some ex_con) Content ex_world))
       = loaded_bunch ex_con Content [ex_files_content ! 0] []"
    by (elim conjE)
  from t [THEN conjunct2, THEN conjunct2, THEN mp, OF ne] m
  have g: "fst (getScript ex_fs (Some ex_con) Content ''c''
            (snd (refresh ex_fs (Some ex_con) Content ex_world))) = Inr None"
    and l: "fs_log (snd (getScript ex_fs (Some ex_con) Content ''c''
            (snd (refresh ex_fs (Some ex_con) Content ex_world))))
       = fs_log (snd (refresh ex_fs (Some ex_con) Content ex_world))"
    by simp_all
  from ex_path_content h2 c0 h4 h5 r b lb g l show ?thesis by (intro conjI)
qed


section \<open>Claims about execution\<close>

text \<open>
  C1 as the specification states it: after a failed evaluation the tables and sub-scripts
  already handed to the conductor remain owned by it and can be retrieved from it. Here the
  embedded script hands over the table at address 3 and a sub-script and then fails:
  \<open>execute\<close> ends with the error, returns no conductor, and the table has been deleted.
\<close>

theorem execute_embedded_error_counterexample:
  "fst (execute ex_fs ex_js (Some ex_con) Tree ''report'' ex_env ex_world)
     = Inl (ErrorAtLine 1 ''ReferenceError: run is not defined'')
   \<and> returned_tables (js_calls (ex_js ''run()'')) = [ex_t_named]
   \<and> addr ex_t_named = 3
   \<and> deleted (snd (execute ex_fs ex_js (Some ex_con) Tree ''report'' ex_env ex_world)) = [3]"
  by (simp add: ex_eval ex_exec returned_tables_def)

text \<open>
  C1 (amended). If the evaluation of an embedded script ends with an error, \<open>execute\<close>
  raises an error carrying the line and the message and returns no conductor: the conductor,
  owned by the local \<^verbatim>\<open>unique_ptr\<close>, is destroyed while the error propagates, and its
  destructor deletes every table that the script had handed to it. Partial output is not
  preserved.
\<close>

theorem execute_embedded_error:
  assumes "fst (getScript fs con context objectType w) = Inr (Some s)"
    and "stype s = QS"
    and "js_error (js (fst (expand_macros envCallback (body s)))) = Some (line, msg)"
  shows "fst (execute fs js con context objectType envCallback w) = Inl (ErrorAtLine line msg)
       \<and> deleted (snd (execute fs js con context objectType envCallback w))
           = deleted w @ map addr (returned_tables (js_calls (js (fst (expand_macros envCallback (body s))))))"
proof -
  obtain w1 where g: "getScript fs con context objectType w = (Inr (Some s), w1)"
    using assms(1) by (cases "getScript fs con context objectType w") auto
  obtain query calls where ex: "expand_macros envCallback (body s) = (query, calls)"
    by (cases "expand_macros envCallback (body s)")
  let ?w3 = "w1\<lparr>cb_log := cb_log w1 @ calls, js_log := js_log w1 @ [query]\<rparr>"
  obtain env' w4 where f: "foldl (\<lambda>ew call. run_call call ew) (new_conductor, ?w3) (js_calls (js query)) = (env', w4)"
    by (cases "foldl (\<lambda>ew call. run_call call ew) (new_conductor, ?w3) (js_calls (js query))")
  from run_calls[of new_conductor ?w3 "js_calls (js query)"] f
  have rs: "resultsets env' = returned_tables (js_calls (js query))" and d: "deleted w4 = deleted w1"
    by (simp_all add: new_conductor_def)
  have e: "execute fs js con context objectType envCallback w = (Inl (ErrorAtLine line msg), destroy env' w4)"
    using assms(2,3) by (simp add: execute_def g ex Let_def f)
  from getScript_frame[OF g] have "deleted w1 = deleted w" by simp
  with e rs d ex show ?thesis by (simp add: destroy_def clear_def)
qed

theorem execute_embedded_error_witness:
  "fst (getScript ex_fs (Some ex_con) Tree ''report'' ex_world)
     = Inr (Some \<lparr>body = ''run()'', stype = QS\<rparr>)
   \<and> stype \<lparr>body = ''run()'', stype = QS\<rparr> = QS
   \<and> js_error (ex_js (fst (expand_macros ex_env (body \<lparr>body = ''run()'', stype = QS\<rparr>))))
       = Some (1, ''ReferenceError: run is not defined'')
   \<and> fst (execute ex_fs ex_js (Some ex_con) Tree ''report'' ex_env ex_world)
       = Inl (ErrorAtLine 1 ''ReferenceError: run is not defined'')
   \<and> deleted (snd (execute ex_fs ex_js (Some ex_con) Tree ''report'' ex_env ex_world)) = [3]"
proof -
  have h2: "stype \<lparr>body = ''run()'', stype = QS\<rparr> = QS" by simp
  have h3: "js_error (ex_js (fst (expand_macros ex_env (body \<lparr>body = ''run()'', stype = QS\<rparr>))))
       = Some (1, ''ReferenceError: run is not defined'')"
    by (simp add: ex_js_def)
  have d: "deleted ex_world = []" by (simp add: ex_world_def)
  have t: "map addr (returned_tables (js_calls (ex_js (fst (expand_macros ex_env
             (body \<lparr>body = ''run()'', stype = QS\<rparr>)))))) = [3]"
    by (simp add: ex_js_def returned_tables_def ex_t_named_def)
  from execute_embedded_error [where js = ex_js and envCallback = ex_env, OF ex_getScript_report h2 h3] ex_getScript_report h3 d t
  show ?thesis by simp
qed

text \<open>
  C2. For an SQL script, \<open>execute\<close> returns a conductor, and for every result set of the
  connection: with one row, one column and the column name \<open>script\<close> its cell is among the
  sub-scripts and it is not among the tables; with one row, one column and the column name
  \<open>html\<close> its cell is among the HTML fragments and it is not among the tables; with one row,
  one column and another column name it is among the tables; with any other shape it is among
  the tables, whatever its columns are called. The conductor holds no other table, and the
  result sets deleted by the call are exactly those classified as script or HTML.
\<close>

theorem execute_sql_classification:
  assumes "fst (getScript fs (Some c) context objectType w) = Inr (Some s)"
    and "stype s = SQL"
  shows "\<exists>env. fst (execute fs js (Some c) context objectType envCallback w) = Inr (Some env)
     \<and> (\<forall>t \<in> set (exec_result c (fst (expand_macros envCallback (body s)))).
          (rowCount t = 1 \<and> columnCount t = 1 \<and> columnName0 t = ''script''
             \<longrightarrow> value00 t \<in> set (scripts env) \<and> t \<notin> set (resultsets env))
        \<and> (rowCount t = 1 \<and> columnCount t = 1 \<and> columnName0 t = ''html''
             \<longrightarrow> value00 t \<in> set (html env) \<and> t \<notin> set (resultsets env))
        \<and> (rowCount t = 1 \<and> columnCount t = 1 \<and> columnName0 t \<noteq> ''script''
             \<and> columnName0 t \<noteq> ''html'' \<longrightarrow> t \<in> set (resultsets env))
        \<and> (\<not> (rowCount t = 1 \<and> columnCount t = 1) \<longrightarrow> t \<in> set (resultsets env)))
     \<and> set (resultsets env) \<subseteq> set (exec_result c (fst (expand_macros envCallback (body s))))
     \<and> deleted (snd (execute fs js (Some c) context objectType envCallback w))
         = deleted w @ rev (map addr (filter (\<lambda>t. is_script_result t \<or> is_html_result t)
                                 (exec_result c (fst (expand_macros envCallback (body s))))))"
proof -
  obtain w1 where g: "getScript fs (Some c) context objectType w = (Inr (Some s), w1)"
    using assms(1) by (cases "getScript fs (Some c) context objectType w") auto
  from getScript_frame[OF g] have d: "deleted w1 = deleted w" by simp
  let ?rs = "exec_result c (fst (expand_macros envCallback (body s)))"
  let ?env = "\<lparr>resultsets = rev (filter is_table_result ?rs),
               scripts = rev (map value00 (filter is_script_result ?rs)),
               html = rev (map value00 (filter is_html_result ?rs))\<rparr>"
  note e = execute_sql[OF g assms(2), of js envCallback]
  have nt: "(\<lambda>t. \<not> is_table_result t) = (\<lambda>t. is_script_result t \<or> is_html_result t)"
    by (simp add: is_table_result_def)
  have r: "fst (execute fs js (Some c) context objectType envCallback w) = Inr (Some ?env)"
    by (simp add: e)
  have dl: "deleted (snd (execute fs js (Some c) context objectType envCallback w))
         = deleted w @ rev (map addr (filter (\<lambda>t. is_script_result t \<or> is_html_result t) ?rs))"
    by (simp add: e d nt)
  have cl: "\<forall>t \<in> set ?rs.
          (rowCount t = 1 \<and> columnCount t = 1 \<and> columnName0 t = ''script''
             \<longrightarrow> value00 t \<in> set (scripts ?env) \<and> t \<notin> set (resultsets ?env))
        \<and> (rowCount t = 1 \<and> columnCount t = 1 \<and> columnName0 t = ''html''
             \<longrightarrow> value00 t \<in> set (html ?env) \<and> t \<notin> set (resultsets ?env))
        \<and> (rowCount t = 1 \<and> columnCount t = 1 \<and> columnName0 t \<noteq> ''script''
             \<and> columnName0 t \<noteq> ''html'' \<longrightarrow> t \<in> set (resultsets ?env))
        \<and> (\<not> (rowCount t = 1 \<and> columnCount t = 1) \<longrightarrow> t \<in> set (resultsets ?env))"
    by (auto simp: is_table_result_def is_script_result_def is_html_result_def is_1x1_def)
  have sub: "set (resultsets ?env) \<subseteq> set ?rs" by auto
  from r dl cl sub show ?thesis by blast
qed

theorem execute_sql_classification_witness:
  "fst (getScript ex_fs (Some ex_con) Tree ''indexes'' ex_world)
     = Inr (Some \<lparr>body = ''/* V90000+ */ select $a.b$'', stype = SQL\<rparr>)
   \<and> stype \<lparr>body = ''/* V90000+ */ select $a.b$'', stype = SQL\<rparr> = SQL
   \<and> (\<exists>env. fst (execute ex_fs ex_js (Some ex_con) Tree ''indexes'' ex_env ex_world) = Inr (Some env)
         \<and> ''select 2'' \<in> set (scripts env) \<and> ex_t_script \<notin> set (resultsets env)
         \<and> ''<b>1</b>'' \<in> set (html env) \<and> ex_t_html \<notin> set (resultsets env)
         \<and> ex_t_named \<in> set (resultsets env)
         \<and> ex_t_wide \<in> set (resultsets env))
   \<and> deleted (snd (execute ex_fs ex_js (Some ex_con) Tree ''indexes'' ex_env ex_world)) = [2, 1]"
proof -
  let ?s = "\<lparr>body = ''/* V90000+ */ select $a.b$'', stype = SQL\<rparr>"
  have h2: "stype ?s = SQL" by simp
  have rs: "exec_result ex_con (fst (expand_macros ex_env (body ?s)))
              = [ex_t_script, ex_t_named, ex_t_html, ex_t_wide]"
    by (simp add: ex_con_def)
  have d: "deleted ex_world = []" by (simp add: ex_world_def)
  have shapes:
    "rowCount ex_t_script = 1 \<and> columnCount ex_t_script = 1 \<and> columnName0 ex_t_script = ''script''"
    "rowCount ex_t_html = 1 \<and> columnCount ex_t_html = 1 \<and> columnName0 ex_t_html = ''html''"
    "rowCount ex_t_named = 1 \<and> columnCount ex_t_named = 1 \<and> columnName0 ex_t_named \<noteq> ''script''
       \<and> columnName0 ex_t_named \<noteq> ''html''"
    "\<not> (rowCount ex_t_wide = 1 \<and> columnCount ex_t_wide = 1)"
    "value00 ex_t_script = ''select 2''" "value00 ex_t_html = ''<b>1</b>''"
    by (simp_all add: rowCount_def columnCount_def columnName0_def value00_def
        ex_t_script_def ex_t_html_def ex_t_named_def ex_t_wide_def)
  have del: "rev (map addr (filter (\<lambda>t. is_script_result t \<or> is_html_result t)
               [ex_t_script, ex_t_named, ex_t_html, ex_t_wide])) = [2, 1]"
    by (simp add: is_script_result_def is_html_result_def is_1x1_def rowCount_def columnCount_def
        columnName0_def ex_t_script_def ex_t_html_def ex_t_named_def ex_t_wide_def)
  from execute_sql_classification [OF ex_getScript_indexes h2, of ex_js ex_env]
  obtain env where env: "fst (execute ex_fs ex_js (Some ex_con) Tree ''indexes'' ex_env ex_world) = Inr (Some env)"
    and cl: "\<forall>t \<in> set [ex_t_script, ex_t_named, ex_t_html, ex_t_wide].
          (rowCount t = 1 \<and> columnCount t = 1 \<and> columnName0 t = ''script''
             \<longrightarrow> value00 t \<in> set (scripts env) \<and> t \<notin> set (resultsets env))
        \<and> (rowCount t = 1 \<and> columnCount t = 1 \<and> columnName0 t = ''html''
             \<longrightarrow> value00 t \<in> set (html env) \<and> t \<notin> set (resultsets env))
        \<and> (rowCount t = 1 \<and> columnCount t = 1 \<and> columnName0 t \<noteq> ''script''
             \<and> columnName0 t \<noteq> ''html'' \<longrightarrow> t \<in> set (resultsets env))
        \<and> (\<not> (rowCount t = 1 \<and> columnCount t = 1) \<longrightarrow> t \<in> set (resultsets env))"
    and dl: "deleted (snd (execute ex_fs ex_js (Some ex_con) Tree ''indexes'' ex_env ex_world))
         = deleted ex_world @ rev (map addr (filter (\<lambda>t. is_script_result t \<or> is_html_result t)
               [ex_t_script, ex_t_named, ex_t_html, ex_t_wide]))"
    unfolding rs by blast
  from cl shapes have
    "''select 2'' \<in> set (scripts env)" "ex_t_script \<notin> set (resultsets env)"
    "''<b>1</b>'' \<in> set (html env)" "ex_t_html \<notin> set (resultsets env)"
    "ex_t_named \<in> set (resultsets env)" "ex_t_wide \<in> set (resultsets env)"
    by (metis list.set_intros(1) list.set_intros(2))+
  with env dl del d ex_getScript_indexes h2 show ?thesis by auto
qed

text \<open>
  C10. For an SQL script the loop takes the result sets of the connection from the last one
  down to the first, so the tables of the returned conductor, its sub-scripts and its HTML
  fragments each stand in the reverse of the order in which the connection listed the result
  sets they come from.
\<close>

theorem execute_sql_reverse_order:
  assumes "fst (getScript fs (Some c) context objectType w) = Inr (Some s)"
    and "stype s = SQL"
  shows "\<exists>env. fst (execute fs js (Some c) context objectType envCallback w) = Inr (Some env)
     \<and> resultsets env = rev (filter is_table_result
                              (exec_result c (fst (expand_macros envCallback (body s)))))
     \<and> scripts env = rev (map value00 (filter is_script_result
                              (exec_result c (fst (expand_macros envCallback (body s))))))
     \<and> html env = rev (map value00 (filter is_html_result
                              (exec_result c (fst (expand_macros envCallback (body s))))))"
proof -
  obtain w1 where g: "getScript fs (Some c) context objectType w = (Inr (Some s), w1)"
    using assms(1) by (cases "getScript fs (Some c) context objectType w") auto
  show ?thesis
    unfolding execute_sql[OF g assms(2), of js envCallback] by simp
qed

theorem execute_sql_reverse_order_witness:
  "fst (getScript ex_fs (Some ex_con) Tree ''indexes'' ex_world)
     = Inr (Some \<lparr>body = ''/* V90000+ */ select $a.b$'', stype = SQL\<rparr>)
   \<and> stype \<lparr>body = ''/* V90000+ */ select $a.b$'', stype = SQL\<rparr> = SQL
   \<and> exec_result ex_con ''/* V90000+ */ select NULL'' = [ex_t_script, ex_t_named, ex_t_html, ex_t_wide]
   \<and> (\<exists>env. fst (execute ex_fs ex_js (Some ex_con) Tree ''indexes'' ex_env ex_world) = Inr (Some env)
         \<and> resultsets env = [ex_t_wide, ex_t_named]
         \<and> scripts env = [''select 2'']
         \<and> html env = [''<b>1</b>''])"
proof -
  let ?s = "\<lparr>body = ''/* V90000+ */ select $a.b$'', stype = SQL\<rparr>"
  have h2: "stype ?s = SQL" by simp
  have rs: "exec_result ex_con (fst (expand_macros ex_env (body ?s)))
              = [ex_t_script, ex_t_named, ex_t_html, ex_t_wide]"
    by (simp add: ex_con_def)
  have rs': "exec_result ex_con ''/* V90000+ */ select NULL'' = [ex_t_script, ex_t_named, ex_t_html, ex_t_wide]"
    by (simp add: ex_con_def)
  have f: "rev (filter is_table_result [ex_t_script, ex_t_named, ex_t_html, ex_t_wide]) = [ex_t_wide, ex_t_named]"
    "rev (map value00 (filter is_script_result [ex_t_script, ex_t_named, ex_t_html, ex_t_wide])) = [''select 2'']"
    "rev (map value00 (filter is_html_result [ex_t_script, ex_t_named, ex_t_html, ex_t_wide])) = [''<b>1</b>'']"
    by (simp_all add: is_table_result_def is_script_result_def is_html_result_def is_1x1_def
        rowCount_def columnCount_def columnName0_def value00_def
        ex_t_script_def ex_t_html_def ex_t_named_def ex_t_wide_def)
  from execute_sql_reverse_order [OF ex_getScript_indexes h2, of ex_js ex_env]
  have "\<exists>env. fst (execute ex_fs ex_js (Some ex_con) Tree ''indexes'' ex_env ex_world) = Inr (Some env)
         \<and> resultsets env = [ex_t_wide, ex_t_named]
         \<and> scripts env = [''select 2'']
         \<and> html env = [''<b>1</b>'']"
    unfolding rs f by blast
  with ex_getScript_indexes h2 rs' show ?thesis by blast
qed


section \<open>Claims about macro expansion\<close>

text \<open>
  C4 as the specification states it: every occurrence of each macro token in the text is
  replaced by the value of its macro. The tokens are replaced one macro after the other, each
  time in the text the earlier replacements have left. In the text below the pattern finds the
  tokens of \<open>a.b\<close> and \<open>q.r\<close>, and the resolver gives \<open>A\<close> and \<open>Q\<close>; replacing the
  token of \<open>a.b\<close> first also takes the closing dollar of the token of \<open>q.r\<close>, so that
  token is never replaced and \<open>Q\<close> is not in the result.
\<close>

theorem expand_macros_shared_dollar_counterexample:
  "globalMatch_macro ''$a.b$$q.r$a.b$'' = [''a.b'', ''q.r'']
   \<and> ex_env2 ''a.b'' = ''A'' \<and> ex_env2 ''q.r'' = ''Q''
   \<and> expand_macros ex_env2 ''$a.b$$q.r$a.b$'' = (''A$q.rA'', [''a.b'', ''q.r''])
   \<and> substitute_macros ex_env2 ''$a.b$$q.r$a.b$'' = ''AQa.b$''
   \<and> fst (expand_macros ex_env2 ''$a.b$$q.r$a.b$'') \<noteq> substitute_macros ex_env2 ''$a.b$$q.r$a.b$''"
  by (simp add: expand_macros_def match_macro_def is_word_def ex_env2_def substituted_def
      replace.simps(2))

text \<open>
  C4 (amended). Macro expansion collects the distinct macro names in the order of their
  first occurrences and calls the resolver exactly once for each of them, in that order. For
  each name in turn it replaces, in the text as the earlier replacements have left it, every
  occurrence of the token found scanning from the left, by \<open>NULL\<close> when the resolved value
  is empty and by the value otherwise. When the dollar occurs in the text only as the
  delimiter of macro tokens, every piece of text between two tokens holds a character that is
  neither a word character, nor a dot, nor a dollar, and no resolved value holds a dollar,
  the result is the text with every macro token replaced by the value of its macro.
\<close>

theorem expand_macros_sequential:
  "collect_macros (globalMatch_macro query) [] = rev (remdups (rev (globalMatch_macro query)))
   \<and> (\<forall>m \<in> set (globalMatch_macro query). count_list (snd (expand_macros envCallback query)) m = 1)
   \<and> snd (expand_macros envCallback query) = collect_macros (globalMatch_macro query) []
   \<and> fst (expand_macros envCallback query)
       = foldl (\<lambda>q m. replace q (macro_token m) (substituted envCallback m)) query
           (collect_macros (globalMatch_macro query) [])
   \<and> (\<forall>as b m v.
         (\<forall>a \<in> set as. \<not> sublist (macro_token m) (a @ butlast (macro_token m)))
         \<and> \<not> sublist (macro_token m) b
         \<longrightarrow> replace (concat (map (\<lambda>a. a @ macro_token m) as) @ b) (macro_token m) v
               = concat (map (\<lambda>a. a @ v) as) @ b)
   \<and> (\<forall>p0 nps.
         query = tokens_text p0 nps
         \<and> CHR ''$'' \<notin> set p0
         \<and> (\<forall>np \<in> set nps. valid_name (fst np) \<and> CHR ''$'' \<notin> set (snd np)
                               \<and> CHR ''$'' \<notin> set (envCallback (fst np)))
         \<and> separated nps
         \<longrightarrow> fst (expand_macros envCallback query) = substituted_text envCallback p0 nps
             \<and> fst (expand_macros envCallback query) = substitute_macros envCallback query)"
proof -
  let ?ms = "collect_macros (globalMatch_macro query) []"
  have ms: "?ms = rev (remdups (rev (globalMatch_macro query)))"
    by (simp add: collect_macros_remdups)
  have dist: "distinct ?ms" and set_ms: "set ?ms = set (globalMatch_macro query)"
    by (simp_all add: ms)
  have calls: "snd (expand_macros envCallback query) = ?ms"
    by (simp add: expand_macros_def replace_macros_fold)
  have once: "\<forall>m \<in> set (globalMatch_macro query). count_list (snd (expand_macros envCallback query)) m = 1"
    using dist set_ms by (simp add: calls count_list_distinct)
  have res: "fst (expand_macros envCallback query)
       = foldl (\<lambda>q m. replace q (macro_token m) (substituted envCallback m)) query ?ms"
    by (simp add: expand_macros_def replace_macros_fold)
  have pieces: "\<forall>as b m v.
         (\<forall>a \<in> set as. \<not> sublist (macro_token m) (a @ butlast (macro_token m)))
         \<and> \<not> sublist (macro_token m) b
         \<longrightarrow> replace (concat (map (\<lambda>a. a @ macro_token m) as) @ b) (macro_token m) v
               = concat (map (\<lambda>a. a @ v) as) @ b"
  proof (intro allI impI)
    fix as b m v
    assume a: "(\<forall>a \<in> set as. \<not> sublist (macro_token m) (a @ butlast (macro_token m)))
         \<and> \<not> sublist (macro_token m) b"
    have ne: "macro_token m \<noteq> []" by (simp add: macro_token_Cons)
    from a show "replace (concat (map (\<lambda>a. a @ macro_token m) as) @ b) (macro_token m) v
               = concat (map (\<lambda>a. a @ v) as) @ b"
      by (intro replace_pieces[OF ne]) simp_all
  qed
  have structured: "\<forall>p0 nps.
         query = tokens_text p0 nps
         \<and> CHR ''$'' \<notin> set p0
         \<and> (\<forall>np \<in> set nps. valid_name (fst np) \<and> CHR ''$'' \<notin> set (snd np)
                               \<and> CHR ''$'' \<notin> set (envCallback (fst np)))
         \<and> separated nps
         \<longrightarrow> fst (expand_macros envCallback query) = substituted_text envCallback p0 nps
             \<and> fst (expand_macros envCallback query) = substitute_macros envCallback query"
  proof (intro allI impI)
    fix p0 nps
    assume a: "query = tokens_text p0 nps
         \<and> CHR ''$'' \<notin> set p0
         \<and> (\<forall>np \<in> set nps. valid_name (fst np) \<and> CHR ''$'' \<notin> set (snd np)
                               \<and> CHR ''$'' \<notin> set (envCallback (fst np)))
         \<and> separated nps"
    then have q: "query = tokens_text p0 nps" and d: "CHR ''$'' \<notin> set p0"
      and v: "\<forall>np \<in> set nps. valid_name (fst np) \<and> CHR ''$'' \<notin> set (snd np)
                               \<and> CHR ''$'' \<notin> set (envCallback (fst np))"
      and s: "separated nps" by blast+
    from v have v': "\<forall>np \<in> set nps. valid_name (fst np) \<and> CHR ''$'' \<notin> set (snd np)" by blast
    have e: "fst (expand_macros envCallback query) = substituted_text envCallback p0 nps"
      unfolding q by (rule expand_tokens_text[OF d v s])
    have "substitute_macros envCallback query = substituted_text envCallback p0 nps"
      unfolding q by (rule substitute_tokens_text[OF d v'])
    with e show "fst (expand_macros envCallback query) = substituted_text envCallback p0 nps
             \<and> fst (expand_macros envCallback query) = substitute_macros envCallback query"
      by simp
  qed
  from ms once calls res pieces structured show ?thesis by blast
qed

theorem expand_macros_sequential_witness:
  "''select * from t where x=$a.b$ and y=$a.b$''
      = tokens_text ''select * from t where x='' [(''a.b'', '' and y=''), (''a.b'', [])]
   \<and> CHR ''$'' \<notin> set ''select * from t where x=''
   \<and> valid_name ''a.b'' \<and> CHR ''$'' \<notin> set '' and y='' \<and> ex_env ''a.b'' = []
   \<and> separated [(''a.b'', '' and y=''), (''a.b'', [])]
   \<and> globalMatch_macro ''select * from t where x=$a.b$ and y=$a.b$'' = [''a.b'', ''a.b'']
   \<and> count_list (snd (expand_macros ex_env ''select * from t where x=$a.b$ and y=$a.b$'')) ''a.b'' = 1
   \<and> snd (expand_macros ex_env ''select * from t where x=$a.b$ and y=$a.b$'') = [''a.b'']
   \<and> fst (expand_macros ex_env ''select * from t where x=$a.b$ and y=$a.b$'')
       = ''select * from t where x=NULL and y=NULL''
   \<and> \<not> sublist (macro_token ''a.b'') (''x='' @ butlast (macro_token ''a.b''))
   \<and> \<not> sublist (macro_token ''a.b'') ''!''
   \<and> replace (concat (map (\<lambda>a. a @ macro_token ''a.b'') [''x='']) @ ''!'') (macro_token ''a.b'') ''7''
       = ''x=7!''"
proof -
  let ?q = "''select * from t where x=$a.b$ and y=$a.b$''"
  let ?p0 = "''select * from t where x=''"
  let ?nps = "[(''a.b'', '' and y=''), (''a.b'', [])]"
  have q: "?q = tokens_text ?p0 ?nps"
    by (simp add: tokens_text_def macro_token_def)
  have d: "CHR ''$'' \<notin> set ?p0" by simp
  have vn: "valid_name ''a.b''"
    by (simp add: valid_name_def is_word_def)
  have e: "ex_env ''a.b'' = []" by (simp add: ex_env_def)
  have v: "\<forall>np \<in> set ?nps. valid_name (fst np) \<and> CHR ''$'' \<notin> set (snd np)
                               \<and> CHR ''$'' \<notin> set (ex_env (fst np))"
    using vn e by simp
  have s: "separated ?nps"
    by (simp add: has_separator_def is_word_def)
  have gm: "globalMatch_macro ?q = [''a.b'', ''a.b'']"
    by (simp add: match_macro_def is_word_def)
  have st: "substituted_text ex_env ?p0 ?nps = ''select * from t where x=NULL and y=NULL''"
    by (simp add: substituted_text_def substituted_def e)
  have n1: "\<not> sublist (macro_token ''a.b'') (''x='' @ butlast (macro_token ''a.b''))"
    by (simp add: macro_token_def sublist_Cons_right)
  have n2: "\<not> sublist (macro_token ''a.b'') ''!''"
    by (simp add: macro_token_def sublist_Cons_right)
  note t = expand_macros_sequential [of ?q ex_env]
  note t_once = t [THEN conjunct2, THEN conjunct1]
  note t_calls = t [THEN conjunct2, THEN conjunct2, THEN conjunct1]
  note t_pieces = t [THEN conjunct2, THEN conjunct2, THEN conjunct2, THEN conjunct2, THEN conjunct1]
  note t_text = t [THEN conjunct2, THEN conjunct2, THEN conjunct2, THEN conjunct2, THEN conjunct2]
  have hyp: "?q = tokens_text ?p0 ?nps \<and> CHR ''$'' \<notin> set ?p0
      \<and> (\<forall>np \<in> set ?nps. valid_name (fst np) \<and> CHR ''$'' \<notin> set (snd np)
                               \<and> CHR ''$'' \<notin> set (ex_env (fst np)))
      \<and> separated ?nps"
    using q d v s by (intro conjI)
  from t_text [THEN spec [where x = ?p0], THEN spec [where x = ?nps], THEN mp, OF hyp]
  have r: "fst (expand_macros ex_env ?q) = substituted_text ex_env ?p0 ?nps"
    by (rule conjunct1)
  from t_once gm have c: "count_list (snd (expand_macros ex_env ?q)) ''a.b'' = 1" by simp
  from t_calls gm have sn: "snd (expand_macros ex_env ?q) = [''a.b'']" by simp
  have hyp2: "(\<forall>a \<in> set [''x='']. \<not> sublist (macro_token ''a.b'') (a @ butlast (macro_token ''a.b'')))
      \<and> \<not> sublist (macro_token ''a.b'') ''!''"
    using n1 n2 by simp
  from t_pieces [THEN spec [where x = "[''x='']"], THEN spec [where x = "''!''"],
      THEN spec [where x = "''a.b''"], THEN spec [where x = "''7''"], THEN mp, OF hyp2]
  have rp: "replace (concat (map (\<lambda>a. a @ macro_token ''a.b'') [''x='']) @ ''!'')
        (macro_token ''a.b'') ''7'' = ''x=7!''" by simp
  from q d vn e s gm c sn r st n1 n2 rp show ?thesis by simp
qed

end
